theory Spec2Isabelle
  imports Complex_Main "HOL-Library.Log_Nat" "HOL-Library.Multiset"
begin

section \<open>Python values shared by both source files\<close>

text \<open>
  The exceptions the modelled code can raise. \<open>CastOutOfRange\<close> is not a Python
  exception: it marks the one place (\<open>ndarray.astype(int)\<close> on a value outside the
  64-bit range) where NumPy's result is left to the platform, so that no theorem can
  depend on it.
\<close>

datatype py_error =
    AssertionError
  | IndexError
  | KeyError
  | ValueError
  | ZeroDivisionError
  | OverflowError
  | FileNotFoundError
  | OSError
  | UnboundLocalError
  | OperationalError
  | CastOutOfRange

subsection \<open>Python floats (IEEE 754 binary64)\<close>

text \<open>
  A finite Python float is modelled by the rational number it denotes. \<open>ilog2 x\<close> is
  \<open>\<lfloor>log\<^sub>2 x\<rfloor>\<close> for positive \<open>x\<close>, computed from the bit lengths of numerator and
  denominator. \<open>rne\<close> rounds to the nearest integer, ties to the even one; it is also
  Python's one-argument \<open>round\<close> on a float. \<open>fl64\<close> rounds a rational to the nearest
  binary64 value (53 significant bits, least exponent \<open>-1074\<close>, ties to even); values of
  magnitude \<open>2^1024\<close> or more are out of range, which the operations below check.
\<close>

definition ilog2 :: "rat \<Rightarrow> int" where
  "ilog2 x =
     (let (a, b) = quotient_of x;
          d = int (floorlog 2 (nat a)) - int (floorlog 2 (nat b))
      in if 2 powi d \<le> x then d else d - 1)"

definition rne :: "rat \<Rightarrow> int" where
  "rne x =
     (let f = \<lfloor>x\<rfloor>; d = x - of_int f
      in if d < 1 / 2 then f
         else if 1 / 2 < d then f + 1
         else if even f then f else f + 1)"

definition fl64 :: "rat \<Rightarrow> rat" where
  "fl64 x =
     (if x = 0 then 0
      else let e = max (ilog2 \<bar>x\<bar> - 52) (- 1074)
           in sgn x * of_int (rne (\<bar>x\<bar> / 2 powi e)) * 2 powi e)"

definition float_overflow :: "rat \<Rightarrow> bool" where
  "float_overflow x = (2 ^ 1024 \<le> \<bar>x\<bar>)"

text \<open>\<open>a / b\<close> on two Python ints: true division, correctly rounded.\<close>

definition true_div :: "int \<Rightarrow> int \<Rightarrow> py_error + rat" where
  "true_div a b =
     (if b = 0 then Inl ZeroDivisionError
      else let q = fl64 (of_int a / of_int b)
           in if float_overflow q then Inl OverflowError else Inr q)"

text \<open>\<open>int(x)\<close> on a float truncates towards zero; \<open>round(x)\<close> is \<open>rne\<close>.\<close>

definition int_of_float :: "rat \<Rightarrow> int" where
  "int_of_float x = (if 0 \<le> x then \<lfloor>x\<rfloor> else \<lceil>x\<rceil>)"

definition py_round :: "rat \<Rightarrow> int" where
  "py_round x = rne x"

text \<open>Storing a Python int into a float64 array converts it to the nearest double.\<close>

definition float_of_int :: "int \<Rightarrow> py_error + rat" where
  "float_of_int v =
     (let q = fl64 (of_int v) in if float_overflow q then Inl OverflowError else Inr q)"

text \<open>\<open>x + 1\<close> on a float64 array element.\<close>

definition float_add :: "rat \<Rightarrow> rat \<Rightarrow> rat" where
  "float_add x y = fl64 (x + y)"

text \<open>One element of \<open>array.astype(int)\<close>: truncation, defined inside the int64 range.\<close>

definition astype_int :: "rat \<Rightarrow> py_error + int" where
  "astype_int x =
     (let v = int_of_float x
      in if - (2 ^ 63) \<le> v \<and> v < 2 ^ 63 then Inr v else Inl CastOutOfRange)"

subsection \<open>Python strings\<close>

text \<open>
  A \<open>str\<close> is a list of characters, each read as a code point below 256.
  \<open>is_space\<close> is \<open>str.isspace\<close> on one such character; \<open>py_split\<close> is \<open>str.split()\<close>
  with no argument (runs of whitespace separate the fields, no empty field is
  produced) and \<open>py_strip\<close> is \<open>str.strip()\<close>.
\<close>

definition is_space :: "char \<Rightarrow> bool" where
  "is_space c =
     (let n = (of_char c :: nat)
      in (9 \<le> n \<and> n \<le> 13) \<or> (28 \<le> n \<and> n \<le> 32) \<or> n = 133 \<or> n = 160)"

fun split_from :: "string \<Rightarrow> string \<Rightarrow> string list" where
  "split_from cur [] = (if cur = [] then [] else [cur])"
| "split_from cur (c # cs) =
     (if is_space c then (if cur = [] then split_from [] cs else cur # split_from [] cs)
      else split_from (cur @ [c]) cs)"

definition py_split :: "string \<Rightarrow> string list" where
  "py_split s = split_from [] s"

definition py_strip :: "string \<Rightarrow> string" where
  "py_strip s = rev (dropWhile is_space (rev (dropWhile is_space s)))"

text \<open>
  \<open>int(s)\<close> on a string: surrounding whitespace, an optional sign, decimal digits,
  single underscores between digits. \<open>None\<close> is \<open>ValueError\<close>. (The interpreter's
  configurable limit on the number of digits is not modelled.)
\<close>

definition digit_val :: "char \<Rightarrow> int option" where
  "digit_val c =
     (let n = (of_char c :: nat)
      in if 48 \<le> n \<and> n \<le> 57 then Some (int n - 48) else None)"

fun int_digits :: "int \<Rightarrow> string \<Rightarrow> int option" where
  "int_digits acc [] = Some acc"
| "int_digits acc (c # cs) =
     (if c = CHR ''_'' then
        (case cs of
           [] \<Rightarrow> None
         | d # ds \<Rightarrow>
             (case digit_val d of
                None \<Rightarrow> None
              | Some v \<Rightarrow> int_digits (10 * acc + v) ds))
      else
        (case digit_val c of
           None \<Rightarrow> None
         | Some v \<Rightarrow> int_digits (10 * acc + v) cs))"

definition int_unsigned :: "string \<Rightarrow> int option" where
  "int_unsigned s =
     (case s of
        [] \<Rightarrow> None
      | c # cs \<Rightarrow> (case digit_val c of None \<Rightarrow> None | Some v \<Rightarrow> int_digits v cs))"

definition py_int :: "string \<Rightarrow> int option" where
  "py_int s0 =
     (case py_strip s0 of
        [] \<Rightarrow> None
      | c # cs \<Rightarrow>
          if c = CHR ''-'' then map_option uminus (int_unsigned cs)
          else if c = CHR ''+'' then int_unsigned cs
          else int_unsigned (c # cs))"

text \<open>\<open>os.path.join(a, b)\<close> on POSIX, for two components.\<close>

definition path_join :: "string \<Rightarrow> string \<Rightarrow> string" where
  "path_join a b =
     (if b \<noteq> [] \<and> hd b = CHR ''/'' then b
      else if a = [] \<or> last a = CHR ''/'' then a @ b
      else a @ ''/'' @ b)"

section \<open>The experiment utilities (gmmc\_grid\_search/utils.py)\<close>

subsection \<open>read\_file\<close>

text \<open>
  The file system is a function from a file name to the list \<open>f.readlines()\<close> returns
  (\<open>None\<close> when \<open>open\<close> fails). Each line contributes \<open>(data[0], int(data[1]))\<close>;
  \<open>data[0]\<close> or \<open>data[1]\<close> out of range raises \<open>IndexError\<close>, a second field that is
  no integer raises \<open>ValueError\<close>. The first field is read first.
\<close>

definition read_line :: "string \<Rightarrow> py_error + (string \<times> int)" where
  "read_line line =
     (let data = py_split (py_strip line)
      in if length data < 1 then Inl IndexError
         else if length data < 2 then Inl IndexError
         else (case py_int (data ! 1) of
                 None \<Rightarrow> Inl ValueError
               | Some v \<Rightarrow> Inr (data ! 0, v)))"

fun read_lines :: "string list \<Rightarrow> (string \<times> int) list \<Rightarrow> py_error + (string \<times> int) list" where
  "read_lines [] container = Inr container"
| "read_lines (line # rest) container =
     (case read_line line of
        Inl e \<Rightarrow> Inl e
      | Inr p \<Rightarrow> read_lines rest (container @ [p]))"

definition read_file :: "(string \<Rightarrow> string list option) \<Rightarrow> string \<Rightarrow> py_error + (string \<times> int) list" where
  "read_file fs filename =
     (case fs filename of
        None \<Rightarrow> Inl FileNotFoundError
      | Some lines \<Rightarrow> read_lines lines [])"

subsection \<open>divide\_integer\_K\<close>

text \<open>
  \<open>np.zeros(K,)\<close> is a float64 array, so every element is a double: the model keeps the
  array as a list of the rationals the doubles denote until \<open>astype(int)\<close>.
  \<open>np.random.shuffle\<close> is library code: it is the parameter \<open>np_shuffle\<close>, which
  threads NumPy's generator state \<open>'g\<close>.
\<close>

definition np_zeros :: "int \<Rightarrow> py_error + rat list" where
  "np_zeros K = (if K < 0 then Inl ValueError else Inr (replicate (nat K) 0))"

fun fill_parts :: "int \<Rightarrow> int \<Rightarrow> nat list \<Rightarrow> rat list \<Rightarrow> py_error + rat list" where
  "fill_parts N K [] array = Inr array"
| "fill_parts N K (i # is) array =
     (case true_div N K of
        Inl e \<Rightarrow> Inl e
      | Inr q \<Rightarrow>
          (case float_of_int (int_of_float q) of
             Inl e \<Rightarrow> Inl e
           | Inr v \<Rightarrow> fill_parts N K is (array[i := v])))"

fun add_remainder :: "nat list \<Rightarrow> rat list \<Rightarrow> rat list" where
  "add_remainder [] array = array"
| "add_remainder (i # is) array = add_remainder is (array[i := float_add (array ! i) 1])"

fun astype_int_array :: "rat list \<Rightarrow> py_error + int list" where
  "astype_int_array [] = Inr []"
| "astype_int_array (x # xs) =
     (case astype_int x of
        Inl e \<Rightarrow> Inl e
      | Inr v \<Rightarrow> (case astype_int_array xs of Inl e \<Rightarrow> Inl e | Inr vs \<Rightarrow> Inr (v # vs)))"

definition divide_integer_K ::
  "('g \<Rightarrow> int list \<Rightarrow> int list \<times> 'g) \<Rightarrow> 'g \<Rightarrow> int \<Rightarrow> int \<Rightarrow> bool \<Rightarrow> py_error + (int list \<times> 'g)" where
  "divide_integer_K np_shuffle g N K shuff =
     (case np_zeros K of
        Inl e \<Rightarrow> Inl e
      | Inr array0 \<Rightarrow>
          (case fill_parts N K [0..<nat K] array0 of
             Inl e \<Rightarrow> Inl e
           | Inr array1 \<Rightarrow>
               if K = 0 then Inl ZeroDivisionError
               else
                 (case astype_int_array (add_remainder [0..<nat (N mod K)] array1) of
                    Inl e \<Rightarrow> Inl e
                  | Inr array \<Rightarrow>
                      if shuff then Inr (np_shuffle g array) else Inr (array, g))))"


subsection \<open>Dictionaries\<close>

text \<open>
  A Python \<open>dict\<close> keeps its keys in insertion order, and two of the modelled functions
  depend on that order, so a dictionary is an association list with distinct keys.
  \<open>dict_set\<close> is \<open>d[k] = v\<close>: an existing key keeps its position, a new key goes last.
\<close>

fun dict_set :: "'k \<Rightarrow> 'v \<Rightarrow> ('k \<times> 'v) list \<Rightarrow> ('k \<times> 'v) list" where
  "dict_set k v [] = [(k, v)]"
| "dict_set k v ((k', v') # d) =
     (if k' = k then (k', v) # d else (k', v') # dict_set k v d)"

definition dict_keys :: "('k \<times> 'v) list \<Rightarrow> 'k list" where
  "dict_keys d = map fst d"

definition dict_values :: "('k \<times> 'v) list \<Rightarrow> 'v list" where
  "dict_values d = map snd d"

subsection \<open>get\_files\_and\_labels\<close>

text \<open>
  The state of the loop: the accumulators \<open>files\<close> and \<open>labels\<close>, \<open>label_dict\<close>,
  \<open>next_label_to_use\<close>, and the lines printed by the \<open>except\<close> branch.
\<close>

type_synonym composite_label = "int \<times> int"

type_synonym gfl_state =
  "string list \<times> int list \<times> (composite_label \<times> int) list \<times> int \<times> string list"

definition initial_next_label :: "(composite_label \<times> int) list \<Rightarrow> int" where
  "initial_next_label label_dict =
     (if length (dict_values label_dict) = 0 then 0
      else last (dict_values label_dict) + 1)"

text \<open>
  One iteration. A line of more than two fields is skipped. Inside the \<open>try\<close>, the
  unpacking of a line with fewer than two fields and \<open>int\<close> of a non-integer raise
  \<open>ValueError\<close>, which the bare \<open>except\<close> turns into a printed file name.
\<close>

definition gfl_line ::
  "string \<Rightarrow> string \<Rightarrow> int \<Rightarrow> bool \<Rightarrow> string \<Rightarrow> gfl_state \<Rightarrow> gfl_state" where
  "gfl_line dataset_file_name base_file_path dset_idx flag_unknown_label line st =
     (case st of (files, labels, label_dict, next_label_to_use, printed) \<Rightarrow>
        let fields = py_split (py_strip line)
        in if length fields > 2 then st
           else if length fields \<noteq> 2 then
             (files, labels, label_dict, next_label_to_use, printed @ [dataset_file_name])
           else
             (case py_int (fields ! 1) of
                None \<Rightarrow>
                  (files, labels, label_dict, next_label_to_use, printed @ [dataset_file_name])
              | Some raw \<Rightarrow>
                  let individual_label = (dset_idx, raw);
                      unseen = (individual_label \<notin> set (dict_keys label_dict))
                  in if unseen \<and> flag_unknown_label then st
                     else
                       let label_dict' =
                             (if unseen then dict_set individual_label next_label_to_use label_dict
                              else label_dict);
                           next' = (if unseen then next_label_to_use + 1 else next_label_to_use);
                           files' = files @ [path_join base_file_path (fields ! 0)]
                       in (case map_of label_dict' individual_label of
                             None \<Rightarrow> (files', labels, label_dict', next', printed @ [dataset_file_name])
                           | Some l \<Rightarrow> (files', labels @ [l], label_dict', next', printed))))"

fun gfl_lines ::
  "string \<Rightarrow> string \<Rightarrow> int \<Rightarrow> bool \<Rightarrow> string list \<Rightarrow> gfl_state \<Rightarrow> gfl_state" where
  "gfl_lines name base dset_idx flag [] st = st"
| "gfl_lines name base dset_idx flag (line # rest) st =
     gfl_lines name base dset_idx flag rest (gfl_line name base dset_idx flag line st)"

definition get_files_and_labels ::
  "(string \<Rightarrow> string list option) \<Rightarrow> string \<Rightarrow> string \<Rightarrow> string list \<Rightarrow> int list \<Rightarrow>
   (composite_label \<times> int) list \<Rightarrow> int \<Rightarrow> bool \<Rightarrow>
   py_error + (string list \<times> int list \<times> (composite_label \<times> int) list)" where
  "get_files_and_labels fs dataset_file_name base_file_path files labels label_dict dset_idx
     flag_unknown_label =
     (let next_label_to_use = initial_next_label label_dict
      in case fs dataset_file_name of
           None \<Rightarrow> Inl FileNotFoundError
         | Some lines \<Rightarrow>
             (case gfl_lines dataset_file_name base_file_path dset_idx flag_unknown_label lines
                     (files, labels, label_dict, next_label_to_use, [])
              of (files', labels', label_dict', _, _) \<Rightarrow> Inr (files', labels', label_dict')))"

section \<open>The dataset-access component (dataset/loader.py)\<close>

subsection \<open>Constants and the outside world\<close>

definition IMAGES_ROOT_PATH :: string where
  "IMAGES_ROOT_PATH = ''/lab/tmpig15b/u/name-pending_collection/''"

definition VECTORS_ROOT_PATH :: string where
  "VECTORS_ROOT_PATH = ''/lab/tmpig15b/u/name-pending_collection_vectors/''"

definition DATABASE_PATH :: string where
  "DATABASE_PATH = ''/lab/tmpig15b/u/name-pending_collection/0_collection/all_images.sqlite''"

definition SET_TYPES :: "string list" where
  "SET_TYPES = [''train'', ''validation'', ''test'']"

definition INPUT_TYPES :: "string list" where
  "INPUT_TYPES = [''original'', ''features'']"

definition VECTOR_TYPES :: "string list" where
  "VECTOR_TYPES = [''resnet50'', ''xception'']"

text \<open>
  A row as \<open>fetchall\<close> returns it for the queries of the constructor:
  \<open>(file_hash, relative_path, class_id, set_id, problem)\<close>.
\<close>

type_synonym row = "string \<times> string \<times> int \<times> int \<times> int"

text \<open>
  What the code reads from outside: the file system (\<open>os.path.isdir\<close>,
  \<open>os.path.isfile\<close>), the catalog database (\<open>sqlite3_fetchall\<close> of a statement text is
  what \<open>cursor.execute\<close> of that text followed by \<open>cursor.fetchall()\<close> gives on the
  database at \<open>DATABASE_PATH\<close>: the rows, or the exception raised), the feature-vector
  stores (\<open>h5py.File\<close> of a path, as a dictionary from keys to arrays; \<open>None\<close> when the
  file cannot be opened as a store), and PIL (\<open>Image.open\<close>, \<open>None\<close> when it raises, and
  \<open>convert("RGB")\<close>). A feature array is a list over \<open>'a\<close>.
\<close>

record ('a, 'img) environment =
  isdir :: "string \<Rightarrow> bool"
  isfile :: "string \<Rightarrow> bool"
  sqlite3_fetchall :: "string \<Rightarrow> py_error + row list"
  h5py_File :: "string \<Rightarrow> (string \<times> 'a list) list option"
  Image_open :: "string \<Rightarrow> 'img option"
  convert_RGB :: "'img \<Rightarrow> 'img"

text \<open>
  The module \<open>random\<close>: \<open>seed\<close> yields the generator state a seed determines,
  \<open>shuffle\<close> returns the shuffled list and the next state. Both are library code and
  stay parameters; theorems that need \<open>shuffle\<close> to permute its argument say so.
\<close>

type_synonym entry = "string \<times> string \<times> int \<times> int"

record 'g random_module =
  seed :: "int \<Rightarrow> 'g"
  shuffle :: "'g \<Rightarrow> entry list \<Rightarrow> entry list \<times> 'g"

text \<open>What the constructor and the verifications print, as structured lines.\<close>

datatype message =
    LoadRelevantResults
  | NoResults string nat
  | VerifyingOriginalImages
  | Missing string
  | ErrorWithVectorType
  | VerifyingFeatureVectors string bool
  | FeatureVectorFileMissing string
  | MissingFeatureVectors "string set"
  | Done
  | InitializationFailed

subsection \<open>CollectionImage and CollectionDataset\<close>

record 'a CollectionImage =
  relative_path :: string
  class_id :: int
  set_id :: int
  problem :: int
  file_hash :: string
  feature_vector :: "'a list"

text \<open>
  The attributes of an instance that the modelled methods read. \<open>pipeline\<close> is
  \<open>None\<close> when the argument is \<open>None\<close>; \<open>math.inf\<close> is \<open>None\<close> in the three caps.
\<close>

record ('a, 'img, 't) CollectionDataset =
  initialized_correctly :: bool
  root_path :: string
  dataset_name :: string
  set_type :: string
  input_type :: string
  vector_type :: "string option"
  pipeline :: "('img \<Rightarrow> 't) option"
  images :: "'a CollectionImage list"
  label_dict :: "(int \<times> int) list"
  sample_class_num :: "int option"
  sample_train_size :: "int option"
  sample_test_size :: "int option"
  num_classes :: int

text \<open>
  The constructor returns early, before \<open>self.images\<close> exists, when the query gives
  no row: that instance is \<open>NoRows\<close>.
\<close>

datatype ('a, 'img, 't) construction =
    NoRows
  | Constructed "('a, 'img, 't) CollectionDataset"

text \<open>\<open>xs[i]\<close> on a list, negative indices counting from the end.\<close>

definition py_index :: "'x list \<Rightarrow> int \<Rightarrow> py_error + 'x" where
  "py_index xs i =
     (if 0 \<le> i then
        (if i < int (length xs) then Inr (xs ! nat i) else Inl IndexError)
      else if - int (length xs) \<le> i then Inr (xs ! nat (int (length xs) + i))
      else Inl IndexError)"

text \<open>\<open>xs.index(x)\<close>: the first position of \<open>x\<close>.\<close>

fun list_index :: "'x list \<Rightarrow> 'x \<Rightarrow> py_error + nat" where
  "list_index [] x = Inl ValueError"
| "list_index (y # ys) x =
     (if y = x then Inr 0
      else (case list_index ys x of Inl e \<Rightarrow> Inl e | Inr n \<Rightarrow> Inr (Suc n)))"

subsection \<open>Static helpers\<close>

text \<open>\<open>s.replace("//", "/")\<close>: non-overlapping occurrences, left to right.\<close>

fun replace_double_slash :: "string \<Rightarrow> string" where
  "replace_double_slash (c # d # cs) =
     (if c = CHR ''/'' \<and> d = CHR ''/'' then CHR ''/'' # replace_double_slash cs
      else c # replace_double_slash (d # cs))"
| "replace_double_slash cs = cs"

definition sanitize_and_check_root_path ::
  "('a, 'img) environment \<Rightarrow> string \<Rightarrow> py_error + string" where
  "sanitize_and_check_root_path env root_path0 =
     (let root_path1 = replace_double_slash (root_path0 @ ''/'')
      in if isdir env root_path1 then Inr root_path1 else Inl AssertionError)"

text \<open>
  The decimal digits of a natural number, as an f-string writes an \<open>int\<close> that is not
  negative.
\<close>

fun str_nat :: "nat \<Rightarrow> string" where
  "str_nat n =
     (if n < 10 then [''0123456789'' ! n]
      else str_nat (n div 10) @ [''0123456789'' ! (n mod 10)])"

declare str_nat.simps [simp del]

text \<open>
  The text of the query. The constructor pastes \<open>dataset_name\<close> between two double
  quotes into the statement, and \<open>set_type_int\<close> after \<open>set_id=\<close>; with
  \<open>verify_all_sets_all_types\<close> the statement has no \<open>set_id\<close> condition (\<open>None\<close> here).
\<close>

definition images_query :: "string \<Rightarrow> nat option \<Rightarrow> string" where
  "images_query dataset_name_arg set_type_int =
     ''SELECT file_hash, relative_path, class_id, set_id, problem FROM images WHERE dataset='' @
     [CHR 0x22] @ dataset_name_arg @ [CHR 0x22] @ '' AND problem=0'' @
     (case set_type_int of
        None \<Rightarrow> '';''
      | Some i \<Rightarrow> '' AND set_id='' @ str_nat i @ '';'')"

definition execute_database_query ::
  "('a, 'img) environment \<Rightarrow> string \<Rightarrow> py_error + row list" where
  "execute_database_query env query =
     (if isfile env DATABASE_PATH then sqlite3_fetchall env query else Inl AssertionError)"

subsection \<open>The catalog table and SQLite on the two statements\<close>

text \<open>One row of the table \<open>images\<close> of the catalog database.\<close>

record catalog_row =
  col_dataset :: string
  col_file_hash :: string
  col_relative_path :: string
  col_class_id :: int
  col_set_id :: int
  col_problem :: int

text \<open>
  SQLite reads a token between double quotes as an identifier. In the \<open>WHERE\<close> clause
  of the two statements the token \<open>"x"\<close> is a column of \<open>images\<close> when \<open>x\<close> names one
  (names compare without regard to ASCII case), and the string \<open>x\<close> otherwise (the
  engine's double-quoted string literals, which the library enables unless it is built
  without them). \<open>double_quoted x\<close> is the value of the token in a row. It is \<open>None\<close>
  where the statement is not modelled: a name with a double quote in it ends the token
  early and the rest of the name is read as SQL; a name with a NUL character makes
  \<open>execute\<close> raise; a name of an integer column or of the row id compares a text with
  an integer, which depends on the declared column types.
\<close>

definition ascii_lower :: "char \<Rightarrow> char" where
  "ascii_lower c =
     (let n = (of_char c :: nat)
      in if 65 \<le> n \<and> n \<le> 90 then char_of (n + 32) else c)"

definition integer_columns :: "string list" where
  "integer_columns = [''class_id'', ''set_id'', ''problem'', ''rowid'', ''oid'', ''_rowid_'']"

definition double_quoted :: "string \<Rightarrow> (catalog_row \<Rightarrow> string) option" where
  "double_quoted x =
     (let n = map ascii_lower x
      in if CHR 0x22 \<in> set x \<or> CHR 0x00 \<in> set x then None
         else if n = ''dataset'' then Some col_dataset
         else if n = ''file_hash'' then Some col_file_hash
         else if n = ''relative_path'' then Some col_relative_path
         else if n \<in> set integer_columns then None
         else Some (\<lambda>r. x))"

text \<open>
  The rows SQLite returns for \<open>images_query x set_type_int\<close> on a table, in the order
  of the table: those whose \<open>dataset\<close> equals the value of the token, with
  \<open>problem = 0\<close> and, when the statement has the condition, the given \<open>set_id\<close>.
\<close>

definition sqlite_images :: "catalog_row list \<Rightarrow> string \<Rightarrow> nat option \<Rightarrow> row list option" where
  "sqlite_images table x set_type_int =
     (case double_quoted x of
        None \<Rightarrow> None
      | Some operand \<Rightarrow>
          Some (map (\<lambda>r. (col_file_hash r, col_relative_path r, col_class_id r, col_set_id r,
                          col_problem r))
                  (filter (\<lambda>r. col_dataset r = operand r \<and> col_problem r = 0 \<and>
                               (case set_type_int of
                                  None \<Rightarrow> True
                                | Some i \<Rightarrow> col_set_id r = int i))
                     table)))"

subsection \<open>Grouping, label dictionary, sampling\<close>

text \<open>\<open>self.dict\<close>: raw class id to the list of \<open>(file_hash, relative_path, set_id, problem)\<close>.\<close>

definition group_row :: "(int \<times> entry list) list \<Rightarrow> row \<Rightarrow> (int \<times> entry list) list" where
  "group_row d r =
     (case r of (h, p, c, s, pr) \<Rightarrow>
        (case map_of d c of
           None \<Rightarrow> dict_set c [(h, p, s, pr)] d
         | Some vs \<Rightarrow> dict_set c (vs @ [(h, p, s, pr)]) d))"

fun group_rows :: "row list \<Rightarrow> (int \<times> entry list) list \<Rightarrow> (int \<times> entry list) list" where
  "group_rows [] d = d"
| "group_rows (r # rows) d = group_rows rows (group_row d r)"

fun assign_labels :: "int list \<Rightarrow> int \<Rightarrow> (int \<times> int) list \<Rightarrow> (int \<times> int) list" where
  "assign_labels [] label_use ld = ld"
| "assign_labels (label # rest) label_use ld =
     assign_labels rest (label_use + 1) (dict_set label label_use ld)"

text \<open>
  \<open>if label_dict:\<close> is false for \<open>None\<close> and for an empty dictionary.
\<close>

definition build_label_dict ::
  "(int \<times> int) list option \<Rightarrow> (int \<times> entry list) list \<Rightarrow> (int \<times> int) list" where
  "build_label_dict label_dict_arg d =
     (case label_dict_arg of
        Some (e # es) \<Rightarrow> e # es
      | _ \<Rightarrow>
          if set (dict_keys d) = set (map int [0..<length (dict_keys d)])
          then map (\<lambda>i. (int i, int i)) [0..<length (dict_keys d)]
          else assign_labels (dict_keys d) 0 [])"

definition exceeds :: "nat \<Rightarrow> int option \<Rightarrow> bool" where
  "exceeds n cap = (case cap of None \<Rightarrow> False | Some c \<Rightarrow> c < int n)"

definition compute_num_classes :: "nat \<Rightarrow> int option \<Rightarrow> int" where
  "compute_num_classes n cap =
     (case cap of None \<Rightarrow> int n | Some c \<Rightarrow> if c < int n then c else int n)"

text \<open>The five lists \<open>label, hash, path, set_id, problem_id\<close> of \<open>_random_value\<close>.\<close>

type_synonym sample = "int list \<times> string list \<times> string list \<times> int list \<times> int list"

definition append_sample :: "int \<Rightarrow> entry \<Rightarrow> sample \<Rightarrow> sample" where
  "append_sample key v smp =
     (case (v, smp) of ((h, p, s, pr), (label, hash, path, sid, problem_id)) \<Rightarrow>
        (label @ [key], hash @ [h], path @ [p], sid @ [s], problem_id @ [pr]))"

definition reached :: "int option \<Rightarrow> int \<Rightarrow> bool" where
  "reached num_each_class track_num =
     (case num_each_class of None \<Rightarrow> False | Some q \<Rightarrow> q \<le> track_num)"

text \<open>The inner loop: a value is appended before the quota is compared.\<close>

fun take_values :: "int option \<Rightarrow> int \<Rightarrow> int \<Rightarrow> entry list \<Rightarrow> sample \<Rightarrow> sample" where
  "take_values q key track_num [] smp = smp"
| "take_values q key track_num (v # vs) smp =
     (if reached q (track_num + 1) then append_sample key v smp
      else take_values q key (track_num + 1) vs (append_sample key v smp))"

text \<open>
  The outer loop over \<open>dictionary.items()\<close>, with \<open>current_class_size\<close> and the
  generator state. A key outside the first \<open>num_classes\<close> keys of the label dictionary
  fails the assertion unless \<open>num_classes\<close> is the class cap, and is then skipped.
\<close>

fun random_value_loop ::
  "'g random_module \<Rightarrow> (int \<times> int) list \<Rightarrow> int \<Rightarrow> int option \<Rightarrow> int option \<Rightarrow>
   (int \<times> entry list) list \<Rightarrow> sample \<Rightarrow> int \<Rightarrow> 'g \<Rightarrow> py_error + (sample \<times> 'g)" where
  "random_value_loop rng ld ncls cap q [] smp current_class_size g = Inr (smp, g)"
| "random_value_loop rng ld ncls cap q ((key, vals) # rest) smp current_class_size g =
     (if key \<notin> set (take (nat ncls) (dict_keys ld)) then
        (if Some ncls \<noteq> cap then Inl AssertionError
         else random_value_loop rng ld ncls cap q rest smp current_class_size g)
      else
        (case shuffle rng g vals of (vals', g') \<Rightarrow>
           let smp' = take_values q key 0 vals' smp
           in if ncls \<le> current_class_size + 1 then Inr (smp', g')
              else random_value_loop rng ld ncls cap q rest smp' (current_class_size + 1) g'))"

definition random_value ::
  "'g random_module \<Rightarrow> (int \<times> int) list \<Rightarrow> int \<Rightarrow> int option \<Rightarrow>
   (int \<times> entry list) list \<Rightarrow> int option \<Rightarrow> 'g \<Rightarrow> py_error + (sample \<times> 'g)" where
  "random_value rng ld ncls cap dictionary amount g =
     (case amount of
        None \<Rightarrow> random_value_loop rng ld ncls cap None dictionary ([], [], [], [], []) 0 g
      | Some a \<Rightarrow>
          (case true_div a ncls of
             Inl e \<Rightarrow> Inl e
           | Inr x \<Rightarrow>
               random_value_loop rng ld ncls cap (Some (py_round x)) dictionary
                 ([], [], [], [], []) 0 g))"

text \<open>
  The loop that remaps \<open>self.labels[i]\<close> through the label dictionary (\<open>KeyError\<close> for
  a missing key) and appends one \<open>CollectionImage\<close> per index.
\<close>

fun build_images ::
  "(int \<times> int) list \<Rightarrow> sample \<Rightarrow> nat list \<Rightarrow> 'a CollectionImage list \<Rightarrow>
   py_error + 'a CollectionImage list" where
  "build_images ld smp [] imgs = Inr imgs"
| "build_images ld smp (i # is) imgs =
     (case smp of (labels, hashes, paths, id_set, problem_list) \<Rightarrow>
        (case map_of ld (labels ! i) of
           None \<Rightarrow> Inl KeyError
         | Some l \<Rightarrow>
             (case (py_index hashes (int i), py_index paths (int i),
                    py_index id_set (int i), py_index problem_list (int i)) of
                (Inr h, Inr p, Inr s, Inr pr) \<Rightarrow>
                  build_images ld smp is
                    (imgs @ [\<lparr> relative_path = p, class_id = l, set_id = s, problem = pr,
                               file_hash = h, feature_vector = [] \<rparr>])
              | _ \<Rightarrow> Inl IndexError)))"

subsection \<open>Methods\<close>

definition original_image_path_for_index ::
  "('a, 'img, 't) CollectionDataset \<Rightarrow> int \<Rightarrow> py_error + string" where
  "original_image_path_for_index ds index =
     (if \<not> (0 \<le> index \<and> index \<le> int (length (images ds))) then Inl AssertionError
      else (case py_index (images ds) index of
              Inl e \<Rightarrow> Inl e
            | Inr im \<Rightarrow> Inr (root_path ds @ dataset_name ds @ ''/'' @ relative_path im)))"

fun verify_original_loop ::
  "('a, 'img) environment \<Rightarrow> ('a, 'img, 't) CollectionDataset \<Rightarrow> nat list \<Rightarrow>
   bool \<Rightarrow> message list \<Rightarrow> py_error + (bool \<times> message list)" where
  "verify_original_loop env ds [] had_error out = Inr (had_error, out)"
| "verify_original_loop env ds (i # is) had_error out =
     (case original_image_path_for_index ds (int i) of
        Inl e \<Rightarrow> Inl e
      | Inr original_filename \<Rightarrow>
          if \<not> isfile env original_filename
          then verify_original_loop env ds is True (out @ [Missing original_filename])
          else verify_original_loop env ds is had_error out)"

definition verify_original_images_exist ::
  "('a, 'img) environment \<Rightarrow> ('a, 'img, 't) CollectionDataset \<Rightarrow>
   py_error + (bool \<times> message list)" where
  "verify_original_images_exist env ds =
     (case verify_original_loop env ds [0..<length (images ds)] False [VerifyingOriginalImages] of
        Inl e \<Rightarrow> Inl e
      | Inr (had_error, out) \<Rightarrow> Inr (\<not> had_error, out))"

text \<open>
  \<open>self.images[i].feature_vector = file_h[self.images[i].file_hash][:]\<close> for every
  index, in order.
\<close>

fun load_feature_vectors ::
  "(string \<times> 'a list) list \<Rightarrow> 'a CollectionImage list \<Rightarrow> py_error + 'a CollectionImage list" where
  "load_feature_vectors file_h [] = Inr []"
| "load_feature_vectors file_h (im # ims) =
     (case map_of file_h (file_hash im) of
        None \<Rightarrow> Inl KeyError
      | Some v \<Rightarrow>
          (case load_feature_vectors file_h ims of
             Inl e \<Rightarrow> Inl e
           | Inr ims' \<Rightarrow> Inr (im\<lparr>feature_vector := v\<rparr> # ims')))"

text \<open>
  The result is the returned flag, the printed lines and the instance, whose images
  carry the loaded vectors after a successful load.
\<close>

definition verify_feature_vectors_exist_and_load ::
  "('a, 'img) environment \<Rightarrow> ('a, 'img, 't) CollectionDataset \<Rightarrow> bool \<Rightarrow>
   py_error + (bool \<times> message list \<times> ('a, 'img, 't) CollectionDataset)" where
  "verify_feature_vectors_exist_and_load env ds skip_load =
     (case vector_type ds of
        None \<Rightarrow> Inr (False, [ErrorWithVectorType], ds)
      | Some vt \<Rightarrow>
          let feature_vectors_filename = VECTORS_ROOT_PATH @ vt @ ''/'' @ dataset_name ds @ ''.h5'';
              out = [VerifyingFeatureVectors vt (\<not> skip_load)]
          in if \<not> isfile env feature_vectors_filename
             then Inr (False, out @ [FeatureVectorFileMissing feature_vectors_filename], ds)
             else
               (case h5py_File env feature_vectors_filename of
                  None \<Rightarrow> Inl OSError
                | Some file_h \<Rightarrow>
                    let all_hashes = map file_hash (images ds);
                        feature_vectors_hashes = dict_keys file_h;
                        missing = set all_hashes - set feature_vectors_hashes
                    in if missing \<noteq> {}
                       then Inr (False, out @ [MissingFeatureVectors missing], ds)
                       else if skip_load then Inr (True, out, ds)
                       else
                         (case load_feature_vectors file_h (images ds) of
                            Inl e \<Rightarrow> Inl e
                          | Inr ims \<Rightarrow> Inr (True, out, ds\<lparr>images := ims\<rparr>))))"

text \<open>What \<open>__getitem__\<close> returns first: a feature vector, or the value of \<open>image_tensor\<close>.\<close>

datatype ('a, 't) item_input = Features "'a list" | ImageTensor 't

text \<open>
  \<open>__getitem__\<close>. In the branch for images, \<open>image_tensor\<close> is assigned only when a
  pipeline is configured; the \<open>return\<close> reads it first, so without a pipeline the read
  of the unassigned local raises \<open>UnboundLocalError\<close>.
\<close>

definition getitem ::
  "('a, 'img) environment \<Rightarrow> ('a, 'img, 't) CollectionDataset \<Rightarrow> int \<Rightarrow>
   py_error + (('a, 't) item_input \<times> int)" where
  "getitem env ds index =
     (if \<not> initialized_correctly ds then Inl AssertionError
      else if \<not> (0 \<le> index \<and> index \<le> int (length (images ds))) then Inl AssertionError
      else if input_type ds = ''features'' then
        (case py_index (images ds) index of
           Inl e \<Rightarrow> Inl e
         | Inr im \<Rightarrow> Inr (Features (feature_vector im), class_id im))
      else
        (case original_image_path_for_index ds index of
           Inl e \<Rightarrow> Inl e
         | Inr image_filename \<Rightarrow>
             (case Image_open env image_filename of
                None \<Rightarrow> Inl FileNotFoundError
              | Some image0 \<Rightarrow>
                  let image = (if input_type ds = ''original'' then convert_RGB env image0 else image0)
                  in (case pipeline ds of
                        None \<Rightarrow> Inl UnboundLocalError
                      | Some run_pipeline \<Rightarrow>
                          (case py_index (images ds) index of
                             Inl e \<Rightarrow> Inl e
                           | Inr im \<Rightarrow> Inr (ImageTensor (run_pipeline image), class_id im))))))"

definition len :: "('a, 'img, 't) CollectionDataset \<Rightarrow> py_error + nat" where
  "len ds = (if initialized_correctly ds then Inr (length (images ds)) else Inl AssertionError)"

subsection \<open>The constructor\<close>

definition choose_amount :: "string \<Rightarrow> nat \<Rightarrow> int option \<Rightarrow> int option \<Rightarrow> int option" where
  "choose_amount st n_rows train_size test_size =
     (if st = ''train'' \<and> exceeds n_rows train_size then train_size
      else if (st = ''validation'' \<or> st = ''test'') \<and> exceeds n_rows test_size then test_size
      else None)"

text \<open>The last step of the constructor: the verification for the input type.\<close>

definition run_verification ::
  "('a, 'img) environment \<Rightarrow> bool \<Rightarrow> ('a, 'img, 't) CollectionDataset \<Rightarrow>
   py_error + (('a, 'img, 't) CollectionDataset \<times> message list)" where
  "run_verification env verify_all_sets_all_types ds =
     (if \<not> verify_all_sets_all_types then
        (if input_type ds = ''original'' then
           (case verify_original_images_exist env ds of
              Inl e \<Rightarrow> Inl e
            | Inr (ok, out) \<Rightarrow>
                Inr (ds\<lparr>initialized_correctly := ok\<rparr>,
                     out @ [if ok then Done else InitializationFailed]))
         else
           (case verify_feature_vectors_exist_and_load env ds False of
              Inl e \<Rightarrow> Inl e
            | Inr (ok, out, ds') \<Rightarrow>
                Inr (ds'\<lparr>initialized_correctly := ok\<rparr>,
                     out @ [if ok then Done else InitializationFailed])))
      else
        (case verify_original_images_exist env ds of
           Inl e \<Rightarrow> Inl e
         | Inr (ok1, out1) \<Rightarrow>
             (case verify_feature_vectors_exist_and_load env ds True of
                Inl e \<Rightarrow> Inl e
              | Inr (ok2, out2, ds') \<Rightarrow>
                  Inr (ds'\<lparr>initialized_correctly := (ok1 \<and> ok2)\<rparr>,
                       out1 @ out2 @ [if ok1 \<and> ok2 then Done else InitializationFailed]))))"

text \<open>
  The part of the constructor between the query and the verification: the caps, the
  grouping, the label dictionary, the number of classes, the sampling and the list of
  images. It returns the images, the label dictionary, \<open>num_classes\<close> and the state
  of the generator.
\<close>

definition sample_images ::
  "'g random_module \<Rightarrow> 'g \<Rightarrow> (int \<times> int) list option \<Rightarrow> bool \<Rightarrow> string \<Rightarrow> row list \<Rightarrow>
   py_error + ('a CollectionImage list \<times> (int \<times> int) list \<times> int \<times> 'g)" where
  "sample_images rng g1 label_dict_arg full_dataset set_type_arg rows =
     (let class_cap = (if full_dataset then None else Some 500);
          train_size = (if full_dataset then None else Some 54000);
          test_size = (if full_dataset then None else Some 6000);
          d = group_rows rows [];
          ld = build_label_dict label_dict_arg d;
          ncls = compute_num_classes (length (dict_keys d)) class_cap;
          amount = choose_amount set_type_arg (length rows) train_size test_size
      in case random_value rng ld ncls class_cap d amount g1 of
           Inl e \<Rightarrow> Inl e
         | Inr (smp, g2) \<Rightarrow>
             (case build_images ld smp [0..<length (fst smp)] [] of
                Inl e \<Rightarrow> Inl e
              | Inr imgs \<Rightarrow> Inr (imgs, ld, ncls, g2)))"

text \<open>
  \<open>CollectionDataset.__init__\<close>. \<open>g0\<close> is the state of the module \<open>random\<close> before
  the call; the result carries the instance, the state after the call and the printed
  lines. The assertion \<open>len(dataset_name) != ""\<close> compares a number with a string and
  holds for every name, so it has no branch here.
\<close>

definition init ::
  "'g random_module \<Rightarrow> 'g \<Rightarrow> ('a, 'img) environment \<Rightarrow> string \<Rightarrow> string \<Rightarrow> string \<Rightarrow>
   string option \<Rightarrow> ('img \<Rightarrow> 't) option \<Rightarrow> (int \<times> int) list option \<Rightarrow> bool \<Rightarrow> bool \<Rightarrow>
   py_error + (('a, 'img, 't) construction \<times> 'g \<times> message list)" where
  "init rng g0 env dataset_name_arg set_type_arg input_type_arg vector_type_arg pipeline_arg
     label_dict_arg verify_all_sets_all_types full_dataset =
     (let g1 = seed rng 27
      in case sanitize_and_check_root_path env IMAGES_ROOT_PATH of
           Inl e \<Rightarrow> Inl e
         | Inr root_dir \<Rightarrow>
      if set_type_arg \<notin> set SET_TYPES then Inl AssertionError
      else if input_type_arg \<notin> set INPUT_TYPES then Inl AssertionError
      else if input_type_arg = ''features'' \<and> vector_type_arg \<notin> Some ` set VECTOR_TYPES
        then Inl AssertionError
      else
        (case list_index SET_TYPES set_type_arg of
           Inl e \<Rightarrow> Inl e
         | Inr set_type_int \<Rightarrow>
        (case execute_database_query env
                (images_query dataset_name_arg
                   (if \<not> verify_all_sets_all_types then Some set_type_int else None)) of
           Inl e \<Rightarrow> Inl e
         | Inr rows \<Rightarrow>
        if length rows = 0 then
          Inr (NoRows, g1, [LoadRelevantResults, NoResults dataset_name_arg set_type_int])
        else
          (case sample_images rng g1 label_dict_arg full_dataset set_type_arg rows of
             Inl e \<Rightarrow> Inl e
           | Inr (imgs, ld, ncls, g2) \<Rightarrow>
          (case run_verification env verify_all_sets_all_types
                  \<lparr> initialized_correctly = False, root_path = root_dir,
                    dataset_name = dataset_name_arg, set_type = set_type_arg,
                    input_type = input_type_arg, vector_type = vector_type_arg,
                    pipeline = pipeline_arg, images = imgs, label_dict = ld,
                    sample_class_num = (if full_dataset then None else Some 500),
                    sample_train_size = (if full_dataset then None else Some 54000),
                    sample_test_size = (if full_dataset then None else Some 6000),
                    num_classes = ncls \<rparr> of
             Inl e \<Rightarrow> Inl e
           | Inr (ds, out) \<Rightarrow> Inr (Constructed ds, g2, LoadRelevantResults # out))))))"

section \<open>Notions used to state the properties\<close>

text \<open>
  \<open>first_seen xs\<close> lists the elements of \<open>xs\<close> once each, in the order of their first
  occurrence. \<open>image_row\<close> is an image without its feature vector, \<open>row_class\<close> and
  \<open>row_entry\<close> split a query row into its class id and the rest. \<open>as_sample\<close> turns
  a list of \<open>(class id, entry)\<close> pairs into the five parallel lists of \<open>_random_value\<close>.
\<close>

definition first_seen :: "'x list \<Rightarrow> 'x list" where
  "first_seen xs = rev (remdups (rev xs))"

definition image_row :: "'a CollectionImage \<Rightarrow> string \<times> string \<times> int \<times> int \<times> int" where
  "image_row im = (file_hash im, relative_path im, class_id im, set_id im, problem im)"

definition row_class :: "row \<Rightarrow> int" where
  "row_class r = (case r of (h, p, c, s, pr) \<Rightarrow> c)"

definition row_entry :: "row \<Rightarrow> entry" where
  "row_entry r = (case r of (h, p, c, s, pr) \<Rightarrow> (h, p, s, pr))"

definition as_sample :: "(int \<times> entry) list \<Rightarrow> sample" where
  "as_sample xs =
     (map fst xs,
      map (\<lambda>(k, h, p, s, pr). h) xs,
      map (\<lambda>(k, h, p, s, pr). p) xs,
      map (\<lambda>(k, h, p, s, pr). s) xs,
      map (\<lambda>(k, h, p, s, pr). pr) xs)"

text \<open>
  The rows the claims speak of: the rows of the catalog table for a task and a split
  (every split when none is given) that are not marked as a problem. \<open>literal_name\<close>
  holds of the task names that SQLite reads, between double quotes, as the string
  itself.
\<close>

definition requested_rows :: "string \<Rightarrow> nat option \<Rightarrow> catalog_row list \<Rightarrow> row list" where
  "requested_rows name set_type_int table =
     map (\<lambda>r. (col_file_hash r, col_relative_path r, col_class_id r, col_set_id r, col_problem r))
       (filter (\<lambda>r. col_dataset r = name \<and> col_problem r = 0 \<and>
                    (case set_type_int of None \<Rightarrow> True | Some i \<Rightarrow> col_set_id r = int i))
          table)"

definition literal_name :: "string \<Rightarrow> bool" where
  "literal_name x =
     (CHR 0x22 \<notin> set x \<and> CHR 0x00 \<notin> set x \<and>
      map ascii_lower x \<notin> set ([''dataset'', ''file_hash'', ''relative_path''] @ integer_columns))"


section \<open>Small concrete worlds\<close>

text \<open>
  A file system holding one text file, used where a theorem is applied to a concrete
  input.
\<close>

definition single_file :: "string \<Rightarrow> string list \<Rightarrow> string \<Rightarrow> string list option" where
  "single_file name lines f = (if f = name then Some lines else None)"

text \<open>An index line naming the file \<open>f\<close> with the label \<open>10 ^ k\<close>.\<close>

definition power_line :: "nat \<Rightarrow> string" where
  "power_line k = ''f 1'' @ replicate k CHR ''0''"

text \<open>
  A database engine that answers the statements of the constructor for the task
  \<open>name\<close> as SQLite does on \<open>table\<close>, and raises on every other statement.
\<close>

definition sqlite3_for :: "string \<Rightarrow> catalog_row list \<Rightarrow> string \<Rightarrow> py_error + row list" where
  "sqlite3_for name table query =
     (case filter (\<lambda>sel. query = images_query name sel) [None, Some 0, Some 1, Some 2] of
        [] \<Rightarrow> Inl OperationalError
      | sel # _ \<Rightarrow>
          (case sqlite_images table name sel of
             None \<Rightarrow> Inl OperationalError
           | Some rows \<Rightarrow> Inr rows))"

text \<open>
  A world in which every directory and file exists, the database answers for the task
  \<open>task\<close> on the given table, every image opens, and the feature store of every task
  holds the vectors of the hashes \<open>h0\<close> and \<open>h1\<close>; and a generator whose \<open>shuffle\<close>
  reverses its argument.
\<close>

definition example_env :: "catalog_row list \<Rightarrow> (int, unit) environment" where
  "example_env table =
     \<lparr> isdir = (\<lambda>_. True), isfile = (\<lambda>_. True),
       sqlite3_fetchall = sqlite3_for ''task'' table,
       h5py_File = (\<lambda>_. Some [(''h0'', [1, 2]), (''h1'', [3, 4])]),
       Image_open = (\<lambda>_. Some ()), convert_RGB = (\<lambda>img. img) \<rparr>"

definition example_rng :: "nat random_module" where
  "example_rng = \<lparr> seed = (\<lambda>s. nat s), shuffle = (\<lambda>g xs. (rev xs, Suc g)) \<rparr>"

definition example_image :: "string \<Rightarrow> int \<Rightarrow> int CollectionImage" where
  "example_image h c =
     \<lparr> relative_path = h @ ''.png'', class_id = c, set_id = 0, problem = 0,
       file_hash = h, feature_vector = [] \<rparr>"

definition example_dataset ::
  "string \<Rightarrow> (unit \<Rightarrow> unit) option \<Rightarrow> int CollectionImage list \<Rightarrow>
   (int, unit, unit) CollectionDataset" where
  "example_dataset mode pl imgs =
     \<lparr> initialized_correctly = True, root_path = IMAGES_ROOT_PATH, dataset_name = ''task'',
       set_type = ''train'', input_type = mode, vector_type = Some ''resnet50'',
       pipeline = pl, images = imgs, label_dict = [(0, 0)],
       sample_class_num = Some 500, sample_train_size = Some 54000,
       sample_test_size = Some 6000, num_classes = 1 \<rparr>"

definition example_row :: "string \<Rightarrow> int \<Rightarrow> int \<Rightarrow> catalog_row" where
  "example_row h c s =
     \<lparr> col_dataset = ''task'', col_file_hash = h, col_relative_path = h @ ''.png'',
       col_class_id = c, col_set_id = s, col_problem = 0 \<rparr>"



text \<open>A catalog of nine classes with 667 validation rows each.\<close>

definition nine_classes_table :: "catalog_row list" where
  "nine_classes_table =
     concat (map (\<lambda>c. replicate 667 (example_row ''h'' c 1)) [0, 1, 2, 3, 4, 5, 6, 7, 8])"

section \<open>Properties of the float model\<close>

text \<open>
  \<open>ilog2\<close> is the binary exponent, \<open>rne\<close> is within one half of its argument, and
  a quotient of a non-negative integer below \<open>2^53\<close> by a positive integer truncates,
  after rounding to a double, to the integer quotient.
\<close>

lemma ilog2_bounds:
  assumes "0 < x"
  shows "2 powi (ilog2 x) \<le> x \<and> x < 2 powi (ilog2 x + 1)"
proof -
  obtain a b where ab: "quotient_of x = (a, b)" by (cases "quotient_of x")
  have bpos: "0 < b" using ab by (rule quotient_of_denom_pos)
  have xab: "x = of_int a / of_int b" using ab by (rule quotient_of_div)
  have apos: "0 < a" using assms bpos xab by (simp add: zero_less_divide_iff)
  define la where "la = floorlog 2 (nat a)"
  define lb where "lb = floorlog 2 (nat b)"
  have la: "2 ^ (la - 1) \<le> nat a \<and> nat a < 2 ^ la"
    unfolding la_def using floorlog_bounds[of "nat a" 2] apos by simp
  have lb: "2 ^ (lb - 1) \<le> nat b \<and> nat b < 2 ^ lb"
    unfolding lb_def using floorlog_bounds[of "nat b" 2] bpos by simp
  have la1: "1 \<le> la" unfolding la_def using apos by (simp add: floorlog_def)
  have lb1: "1 \<le> lb" unfolding lb_def using bpos by (simp add: floorlog_def)
  have ra: "(2::rat) ^ (la - 1) \<le> of_int a \<and> (of_int a :: rat) < 2 ^ la"
  proof -
    have "int (2 ^ (la - 1)) \<le> a \<and> a < int (2 ^ la)" using la apos by linarith
    then have "(of_int (2 ^ (la - 1)) :: rat) \<le> of_int a \<and> (of_int a :: rat) < of_int (2 ^ la)"
      by (metis of_int_le_iff of_int_less_iff of_int_of_nat_eq of_nat_numeral of_nat_power of_int_numeral of_int_power)
    then show ?thesis by simp
  qed
  have rb: "(2::rat) ^ (lb - 1) \<le> of_int b \<and> (of_int b :: rat) < 2 ^ lb"
  proof -
    have "int (2 ^ (lb - 1)) \<le> b \<and> b < int (2 ^ lb)" using lb bpos by linarith
    then have "(of_int (2 ^ (lb - 1)) :: rat) \<le> of_int b \<and> (of_int b :: rat) < of_int (2 ^ lb)"
      by (metis of_int_le_iff of_int_less_iff of_int_of_nat_eq of_nat_numeral of_nat_power of_int_numeral of_int_power)
    then show ?thesis by simp
  qed
  define d where "d = int la - int lb"
  have pd: "(2::rat) powi d = 2 ^ la / 2 ^ lb"
    unfolding d_def by (simp add: power_int_diff)
  have pd1: "(2::rat) powi (d + 1) = 2 ^ la / 2 ^ (lb - 1)"
  proof -
    have "d + 1 = int la - int (lb - 1)" unfolding d_def using lb1 by linarith
    then show ?thesis by (simp add: power_int_diff)
  qed
  have pdm: "(2::rat) powi (d - 1) = 2 ^ (la - 1) / 2 ^ lb"
  proof -
    have "d - 1 = int (la - 1) - int lb" unfolding d_def using la1 by linarith
    then show ?thesis by (simp add: power_int_diff)
  qed
  have up: "x < 2 powi (d + 1)"
    unfolding pd1 xab using ra rb bpos apos by (intro frac_less) auto
  have lo: "2 powi (d - 1) \<le> x"
    unfolding pdm xab using ra rb bpos apos by (intro frac_le) auto
  have il: "ilog2 x = (if 2 powi d \<le> x then d else d - 1)"
    unfolding ilog2_def ab d_def la_def lb_def by (simp add: Let_def)
  show ?thesis
  proof (cases "2 powi d \<le> x")
    case True
    then show ?thesis using il up by simp
  next
    case False
    then show ?thesis using il lo by simp
  qed
qed


lemma ilog2_unique:
  assumes "0 < x" "2 powi k \<le> x" "x < 2 powi (k + 1)"
  shows "ilog2 x = k"
proof -
  let ?L = "ilog2 x"
  have b: "2 powi ?L \<le> x \<and> x < 2 powi (?L + 1)" using assms(1) by (rule ilog2_bounds)
  have "\<not> ?L < k"
  proof
    assume "?L < k"
    then have "(2::rat) powi (?L + 1) \<le> 2 powi k" by (intro power_int_increasing) auto
    then show False using b assms(2) by linarith
  qed
  moreover have "\<not> k < ?L"
  proof
    assume "k < ?L"
    then have "(2::rat) powi (k + 1) \<le> 2 powi ?L" by (intro power_int_increasing) auto
    then show False using b assms(3) by linarith
  qed
  ultimately show ?thesis by linarith
qed

lemma rne_near: "\<bar>of_int (rne x) - x\<bar> \<le> 1 / 2"
proof -
  have "of_int \<lfloor>x\<rfloor> \<le> x \<and> x < of_int \<lfloor>x\<rfloor> + 1" by linarith
  then show ?thesis unfolding rne_def Let_def by (auto simp: abs_le_iff)
qed

lemma rne_eq:
  assumes "of_int n - 1 / 2 < x" "x < of_int n + 1 / 2"
  shows "rne x = n"
proof -
  have "\<bar>of_int (rne x) - x\<bar> \<le> 1 / 2" by (rule rne_near)
  then have "\<bar>(of_int (rne x) :: rat) - of_int n\<bar> < 1" using assms by linarith
  then have "\<bar>(of_int (rne x - n) :: rat)\<bar> < 1" by simp
  then have "\<bar>rne x - n\<bar> < 1" by (metis of_int_abs of_int_less_1_iff)
  then show ?thesis by linarith
qed

lemma rne_of_int: "rne (of_int n) = n"
  by (rule rne_eq) auto

lemma rne_le:
  assumes "x < of_int n + 1 / 2"
  shows "rne x \<le> n"
proof -
  have "\<bar>of_int (rne x) - x\<bar> \<le> 1 / 2" by (rule rne_near)
  then have "(of_int (rne x) :: rat) < of_int n + 1" using assms by linarith
  then have "(of_int (rne x) :: rat) < of_int (n + 1)" by simp
  then have "rne x < n + 1" by (simp only: of_int_less_iff)
  then show ?thesis by simp
qed

lemma rne_ge:
  assumes "of_int n \<le> x"
  shows "n \<le> rne x"
proof -
  have fl: "n \<le> \<lfloor>x\<rfloor>" using assms by (simp add: le_floor_iff)
  have "\<lfloor>x\<rfloor> \<le> rne x" unfolding rne_def Let_def by auto
  then show ?thesis using fl by linarith
qed

lemma fl64_pos:
  assumes "0 < x" "2 powi L \<le> x" "x < 2 powi (L + 1)"
  shows "fl64 x = of_int (rne (x / 2 powi (max (L - 52) (- 1074)))) * 2 powi (max (L - 52) (- 1074))"
proof -
  have "ilog2 x = L" using assms by (rule ilog2_unique)
  then have "ilog2 \<bar>x\<bar> = L" using assms(1) by simp
  then show ?thesis using assms(1) unfolding fl64_def Let_def by simp
qed

lemma div_between:
  fixes d a m :: int
  assumes "0 < d" "a * d \<le> m" "m < (a + 1) * d"
  shows "m div d = a"
proof (rule int_div_pos_eq)
  show "m = d * a + (m - a * d)" by (simp add: algebra_simps)
  show "0 \<le> m - a * d" using assms(2) by simp
  show "m - a * d < d" using assms(3) by (simp add: algebra_simps)
qed

lemma powi_neg_nat: "e \<le> 0 \<Longrightarrow> (2::rat) powi e = 1 / 2 ^ nat (- e)"
proof -
  assume "e \<le> 0"
  then have "e = - int (nat (- e))" by simp
  then have "(2::rat) powi e = 2 powi (- int (nat (- e)))" by simp
  also have "\<dots> = 1 / 2 ^ nat (- e)" by (simp only: power_int_minus_divide power_int_of_nat)
  finally show ?thesis .
qed

lemma fl64_div_floor:
  assumes N: "0 < N" "N < 2 ^ 53" and K: "0 < K"
  shows "0 \<le> fl64 (of_int N / of_int K) \<and> \<lfloor>fl64 (of_int N / of_int K)\<rfloor> = N div K"
proof -
  define x :: rat where "x = of_int N / of_int K"
  define L where "L = ilog2 x"
  define e where "e = max (L - 52) (- 1074)"
  define s where "s = nat (- e)"
  define a where "a = N div K"
  define m where "m = rne (x * 2 ^ s)"
  have xpos: "0 < x" unfolding x_def using N K by simp
  have Lb: "2 powi L \<le> x \<and> x < 2 powi (L + 1)" unfolding L_def using xpos by (rule ilog2_bounds)
  have Kr: "(1::rat) \<le> of_int K" using K by simp
  have xN: "x \<le> of_int N"
  proof -
    have "x * of_int K = of_int N" unfolding x_def using K by simp
    moreover have "x * 1 \<le> x * of_int K" using xpos Kr by (intro mult_left_mono) auto
    ultimately show ?thesis by simp
  qed
  have "(of_int N :: rat) < of_int (2 ^ 53)" using N(2) by (simp only: of_int_less_iff)
  then have x53: "x < 2 powi 53" using xN by simp
  have L52: "L \<le> 52"
  proof (rule ccontr)
    assume "\<not> L \<le> 52"
    then have "(2::rat) powi 53 \<le> 2 powi L" by (intro power_int_increasing) auto
    then show False using Lb x53 by linarith
  qed
  have e0: "e \<le> 0" unfolding e_def using L52 by simp
  have pe: "(2::rat) powi e = 1 / 2 ^ s" unfolding s_def using e0 by (rule powi_neg_nat)
  have fx: "fl64 x = of_int m / 2 ^ s"
  proof -
    have "fl64 x = of_int (rne (x / 2 powi e)) * 2 powi e"
      unfolding e_def using fl64_pos[OF xpos] Lb by blast
    then show ?thesis unfolding pe m_def by simp
  qed
  have Ppos: "(0::rat) < 2 ^ s" by simp
  have NaK: "N = a * K + N mod K" unfolding a_def by simp
  have rK: "0 \<le> N mod K \<and> N mod K < K" using K by simp
  have ax: "of_int a \<le> x"
  proof -
    have "a * K \<le> N" using NaK rK by linarith
    then have "(of_int (a * K) :: rat) \<le> of_int N" by (simp only: of_int_le_iff)
    then have "(of_int a :: rat) * of_int K \<le> of_int N" by simp
    then show ?thesis unfolding x_def using K by (simp add: pos_le_divide_eq)
  qed
  have a0: "0 \<le> a" unfolding a_def using N K by (simp add: pos_imp_zdiv_nonneg_iff)
  have lower: "a * 2 ^ s \<le> m"
  proof -
    have "of_int a * 2 ^ s \<le> x * 2 ^ s" using ax Ppos by (intro mult_right_mono) auto
    then have "of_int (a * 2 ^ s) \<le> x * 2 ^ s" by simp
    then show ?thesis unfolding m_def by (rule rne_ge)
  qed
  have xa1: "x \<le> of_int a + 1 - 1 / of_int K"
  proof -
    have "N \<le> a * K + K - 1" using NaK rK by linarith
    then have "(of_int N :: rat) \<le> of_int (a * K + K - 1)" by (simp only: of_int_le_iff)
    then have "(of_int N :: rat) \<le> (of_int a + 1 - 1 / of_int K) * of_int K"
      using K by (simp add: algebra_simps)
    then show ?thesis unfolding x_def using K by (simp add: pos_divide_le_eq)
  qed
  have upper: "m < (a + 1) * 2 ^ s"
  proof (cases "- 1074 \<le> L - 52")
    case True
    then have es: "e = L - 52" unfolding e_def by simp
    have s1: "int s + 1 = 53 - L" unfolding s_def es using L52 by simp
    have "(2::rat) powi L * of_int K \<le> of_int N"
      using Lb K unfolding x_def by (simp add: pos_le_divide_eq)
    then have "(2::rat) powi L * of_int K < 2 powi 53" using \<open>(of_int N :: rat) < of_int (2 ^ 53)\<close> by simp
    moreover have "(2::rat) powi 53 = 2 powi L * 2 powi (int s + 1)"
      unfolding s1 by (simp add: power_int_add [symmetric])
    ultimately have "(2::rat) powi L * of_int K < 2 powi L * 2 powi (int s + 1)" by simp
    then have "(of_int K :: rat) < 2 powi (int s + 1)"
      by (simp add: mult_less_cancel_left_pos)
    then have K2: "(of_int K :: rat) < 2 * 2 ^ s" by (simp add: power_int_add)
    have "1 / 2 < 2 ^ s / (of_int K :: rat)" using K2 K by (simp add: pos_less_divide_eq)
    moreover have "x * 2 ^ s \<le> (of_int a + 1 - 1 / of_int K) * 2 ^ s"
      using xa1 Ppos by (intro mult_right_mono) auto
    ultimately have "x * 2 ^ s < (of_int a + 1) * 2 ^ s - 1 / 2" by (simp add: algebra_simps)
    then have "x * 2 ^ s < of_int ((a + 1) * 2 ^ s - 1) + 1 / 2" by simp
    then have "m \<le> (a + 1) * 2 ^ s - 1" unfolding m_def by (rule rne_le)
    then show ?thesis by simp
  next
    case False
    then have es: "e = - 1074" unfolding e_def by simp
    then have s: "s = 1074" unfolding s_def by simp
    have "L + 1 \<le> - 1022" using False by simp
    then have "(2::rat) powi (L + 1) \<le> 2 powi (- 1022)" by (intro power_int_increasing) auto
    then have x1: "x < 2 powi (- 1022)" using Lb by linarith
    have "x * 2 ^ s \<le> 2 powi (- 1022) * 2 ^ s" using x1 Ppos by (intro mult_right_mono) auto
    also have "\<dots> = 2 powi (- 1022) * 2 powi 1074" unfolding s by simp
    also have "\<dots> = 2 powi (- 1022 + 1074)" by (subst power_int_add) auto
    also have "\<dots> = 2 powi 52" by simp
    finally have "x * 2 ^ s \<le> 2 ^ 52" by simp
    then have "x * 2 ^ s < of_int (2 ^ 52) + 1 / 2" by simp
    then have "m \<le> 2 ^ 52" unfolding m_def by (rule rne_le)
    moreover have "(2::int) ^ 52 < 2 ^ 1074" by (rule power_strict_increasing) auto
    moreover have "(1::int) * 2 ^ s \<le> (a + 1) * 2 ^ s" using a0 by (intro mult_right_mono) auto
    ultimately show ?thesis unfolding s by simp
  qed
  have m0: "0 \<le> m" using lower a0 by (meson mult_nonneg_nonneg order_trans zero_le_numeral zero_le_power)
  have "\<lfloor>fl64 x\<rfloor> = \<lfloor>(of_int m :: rat) / of_int (2 ^ s)\<rfloor>" unfolding fx by simp
  also have "\<dots> = m div 2 ^ s" by (rule floor_divide_of_int_eq)
  also have "\<dots> = a" using lower upper by (intro div_between) auto
  finally have "\<lfloor>fl64 x\<rfloor> = a" .
  moreover have "0 \<le> fl64 x" unfolding fx using m0 by simp
  ultimately show ?thesis unfolding x_def a_def by simp
qed

lemma int_div_le_self:
  fixes N K :: int
  assumes "0 \<le> N" "0 < K"
  shows "N div K \<le> N"
proof -
  have d0: "0 \<le> N div K" using assms by (simp add: pos_imp_zdiv_nonneg_iff)
  have "K * (N div K) + N mod K = N" by simp
  moreover have "0 \<le> N mod K" using assms(2) by simp
  ultimately have "K * (N div K) \<le> N" by linarith
  moreover have "1 * (N div K) \<le> K * (N div K)" using d0 assms(2) by (intro mult_right_mono) auto
  ultimately show ?thesis by simp
qed

lemma fl64_of_int:
  assumes "0 \<le> n" "n \<le> 2 ^ 53"
  shows "fl64 (of_int n) = of_int n"
proof (cases "n = 0")
  case True
  then show ?thesis by (simp add: fl64_def)
next
  case False
  define x :: rat where "x = of_int n"
  define L where "L = ilog2 x"
  have n1: "1 \<le> n" using assms False by simp
  have xpos: "0 < x" unfolding x_def using n1 by simp
  have x1: "1 \<le> x" unfolding x_def using n1 by simp
  have Lb: "2 powi L \<le> x \<and> x < 2 powi (L + 1)" unfolding L_def using xpos by (rule ilog2_bounds)
  have fx: "fl64 x = of_int (rne (x / 2 powi (max (L - 52) (- 1074)))) * 2 powi (max (L - 52) (- 1074))"
    using fl64_pos[OF xpos] Lb by blast
  have "(of_int n :: rat) \<le> of_int (2 ^ 53)" using assms(2) by (simp only: of_int_le_iff)
  then have x53: "x \<le> 2 powi 53" unfolding x_def by simp
  have L0: "0 \<le> L"
  proof (rule ccontr)
    assume "\<not> 0 \<le> L"
    then have "(2::rat) powi (L + 1) \<le> 2 powi 0" by (intro power_int_increasing) auto
    then show False using Lb x1 by simp
  qed
  have L53: "L \<le> 53"
  proof (rule ccontr)
    assume "\<not> L \<le> 53"
    then have "(2::rat) powi 54 \<le> 2 powi L" by (intro power_int_increasing) auto
    moreover have "(2::rat) powi 53 < 2 powi 54" by simp
    ultimately show False using Lb x53 by linarith
  qed
  show ?thesis
  proof (cases "L \<le> 52")
    case True
    define s where "s = nat (52 - L)"
    have e: "max (L - 52) (- 1074) = L - 52" using L0 by simp
    have "L - 52 \<le> 0" using True by simp
    then have pe: "(2::rat) powi (L - 52) = 1 / 2 ^ nat (- (L - 52))" by (rule powi_neg_nat)
    have s: "nat (- (L - 52)) = s" unfolding s_def by simp
    have "x / 2 powi (L - 52) = of_int (n * 2 ^ s)" unfolding pe s x_def by simp
    then have "rne (x / 2 powi (L - 52)) = n * 2 ^ s" by (simp only: rne_of_int)
    then have "fl64 x = of_int (n * 2 ^ s) * (1 / 2 ^ s)" using fx unfolding e pe s by simp
    then show ?thesis unfolding x_def by simp
  next
    case False
    then have L: "L = 53" using L53 by simp
    have "(2::rat) powi 53 \<le> x" using Lb unfolding L by simp
    then have xe: "x = 2 ^ 53" using x53 by simp
    have e: "max (L - 52) (- 1074) = 1" unfolding L by simp
    have "x / 2 powi 1 = of_int (2 ^ 52)" unfolding xe by simp
    then have "rne (x / 2 powi 1) = 2 ^ 52" by (simp only: rne_of_int)
    then have "fl64 x = 2 ^ 53" using fx unfolding e by simp
    then show ?thesis using xe unfolding x_def by simp
  qed
qed

lemma float_overflow_small: "\<bar>x\<bar> \<le> 2 ^ 53 \<Longrightarrow> \<not> float_overflow x"
proof -
  assume a: "\<bar>x\<bar> \<le> 2 ^ 53"
  have "(2::rat) ^ 53 < 2 ^ 1024" by (rule power_strict_increasing) auto
  then show ?thesis using a unfolding float_overflow_def by linarith
qed

lemma true_div_exact:
  assumes "0 \<le> N" "N < 2 ^ 53" "0 < K"
  shows "\<exists>q. true_div N K = Inr q \<and> int_of_float q = N div K"
proof (cases "N = 0")
  case True
  then show ?thesis using assms(3) by (simp add: true_div_def fl64_def float_overflow_def int_of_float_def)
next
  case False
  then have Np: "0 < N" using assms(1) by simp
  let ?q = "fl64 (of_int N / of_int K)"
  have q: "0 \<le> ?q \<and> \<lfloor>?q\<rfloor> = N div K" using Np assms(2,3) by (rule fl64_div_floor)
  have "N div K \<le> N" using assms(1,3) by (rule int_div_le_self)
  then have "\<lfloor>?q\<rfloor> < 2 ^ 53" using q assms(2) by linarith
  then have "?q < of_int (2 ^ 53)" by (simp only: floor_less_iff)
  then have "\<bar>?q\<bar> \<le> 2 ^ 53" using q by simp
  then have "\<not> float_overflow ?q" by (rule float_overflow_small)
  then have "true_div N K = Inr ?q" using assms(3) by (simp add: true_div_def Let_def)
  moreover have "int_of_float ?q = N div K" using q by (simp add: int_of_float_def)
  ultimately show ?thesis by blast
qed

lemma float_of_int_exact:
  assumes "0 \<le> n" "n \<le> 2 ^ 53"
  shows "float_of_int n = Inr (of_int n)"
proof -
  have "(of_int n :: rat) \<le> of_int (2 ^ 53)" using assms(2) by (simp only: of_int_le_iff)
  then have "\<bar>(of_int n :: rat)\<bar> \<le> 2 ^ 53" using assms(1) by simp
  then have "\<not> float_overflow (of_int n)" by (rule float_overflow_small)
  then show ?thesis using fl64_of_int[OF assms] by (simp add: float_of_int_def)
qed

lemma fill_parts_fold:
  assumes "true_div N K = Inr q" "float_of_int (int_of_float q) = Inr v"
  shows "fill_parts N K idx array = Inr (fold (\<lambda>i a. a[i := v]) idx array)"
  using assms by (induction idx arbitrary: array) auto

lemma add_remainder_fold:
  "add_remainder idx array = fold (\<lambda>i a. a[i := float_add (a ! i) 1]) idx array"
  by (induction idx arbitrary: array) auto

lemma fold_set_prefix:
  "m \<le> length array \<Longrightarrow>
   fold (\<lambda>i a. a[i := v]) [0..<m] array = replicate m v @ drop m array"
proof (induction m)
  case 0
  then show ?case by simp
next
  case (Suc m)
  then have "fold (\<lambda>i a. a[i := v]) [0..<Suc m] array = (replicate m v @ drop m array)[m := v]"
    by simp
  also have "\<dots> = replicate m v @ (drop m array)[0 := v]" by (simp add: list_update_append)
  also have "(drop m array)[0 := v] = v # drop (Suc m) array"
    using Suc.prems by (simp add: Cons_nth_drop_Suc [symmetric])
  finally show ?case by (simp add: replicate_append_same)
qed

lemma fold_map_prefix:
  "m \<le> length array \<Longrightarrow>
   fold (\<lambda>i a. a[i := f (a ! i)]) [0..<m] array = map f (take m array) @ drop m array"
proof (induction m)
  case 0
  then show ?case by simp
next
  case (Suc m)
  then have m: "m < length array" by simp
  have "fold (\<lambda>i a. a[i := f (a ! i)]) [0..<Suc m] array =
        (map f (take m array) @ drop m array)[m := f ((map f (take m array) @ drop m array) ! m)]"
    using Suc by simp
  also have "(map f (take m array) @ drop m array) ! m = array ! m"
    using m by (simp add: nth_append)
  also have "(map f (take m array) @ drop m array)[m := f (array ! m)] =
             map f (take m array) @ (drop m array)[0 := f (array ! m)]"
    using m by (simp add: list_update_append)
  also have "(drop m array)[0 := f (array ! m)] = f (array ! m) # drop (Suc m) array"
    using m by (simp add: Cons_nth_drop_Suc [symmetric])
  finally show ?case using m by (simp add: take_Suc_conv_app_nth)
qed

lemma astype_int_array_of_int:
  "\<forall>v \<in> set vs. - (2 ^ 63) \<le> v \<and> v < 2 ^ 63 \<Longrightarrow>
   astype_int_array (map of_int vs) = Inr vs"
  by (induction vs) (auto simp: astype_int_def int_of_float_def)

text \<open>
  Below \<open>2^53\<close> the float arithmetic of \<open>divide_integer_K\<close> is exact: the unshuffled
  array is \<open>N mod K\<close> parts \<open>N div K + 1\<close> followed by parts \<open>N div K\<close>.
\<close>

lemma divide_integer_K_parts:
  assumes "0 \<le> N" "N < 2 ^ 53" "0 < K"
  shows "divide_integer_K np_shuffle g N K shuff =
           (let parts = replicate (nat (N mod K)) (N div K + 1) @
                        replicate (nat K - nat (N mod K)) (N div K)
            in if shuff then Inr (np_shuffle g parts) else Inr (parts, g))"
proof -
  define a where "a = N div K"
  define r where "r = nat (N mod K)"
  obtain q where q: "true_div N K = Inr q" "int_of_float q = a"
    using true_div_exact[OF assms] unfolding a_def by blast
  have a0: "0 \<le> a" unfolding a_def using assms by (simp add: pos_imp_zdiv_nonneg_iff)
  have aN: "a \<le> N" unfolding a_def using assms(1,3) by (rule int_div_le_self)
  have a53: "a + 1 \<le> 2 ^ 53" using aN assms(2) by simp
  have v: "float_of_int (int_of_float q) = Inr (of_int a)"
    unfolding q(2) using a0 a53 by (intro float_of_int_exact) auto
  have rK: "r < nat K" unfolding r_def using assms(3) by (simp add: nat_less_iff)
  have z: "np_zeros K = Inr (replicate (nat K) 0)" using assms(3) by (simp add: np_zeros_def)
  have f1: "fill_parts N K [0..<nat K] (replicate (nat K) 0) = Inr (replicate (nat K) (of_int a))"
    using fill_parts_fold[OF q(1) v] fold_set_prefix[of "nat K" "replicate (nat K) 0" "of_int a"]
    by simp
  have add1: "float_add (of_int a) 1 = of_int (a + 1)"
  proof -
    have "fl64 (of_int (a + 1)) = of_int (a + 1)" using a0 a53 by (intro fl64_of_int) auto
    then show ?thesis by (simp add: float_add_def)
  qed
  have f2: "add_remainder [0..<r] (replicate (nat K) (of_int a)) =
            map of_int (replicate r (a + 1) @ replicate (nat K - r) a)"
  proof -
    have "add_remainder [0..<r] (replicate (nat K) (of_int a)) =
          map (\<lambda>x. float_add x 1) (take r (replicate (nat K) (of_int a))) @
          drop r (replicate (nat K) (of_int a))"
      unfolding add_remainder_fold using rK by (intro fold_map_prefix) simp
    then show ?thesis using rK add1 by (simp add: min_def)
  qed
  have rng: "\<forall>v \<in> set (replicate r (a + 1) @ replicate (nat K - r) a). - (2 ^ 63) \<le> v \<and> v < 2 ^ 63"
  proof -
    have "(2::int) ^ 53 < 2 ^ 63" by (rule power_strict_increasing) auto
    then show ?thesis using a0 a53 by auto
  qed
  have f3: "astype_int_array (add_remainder [0..<r] (replicate (nat K) (of_int a))) =
            Inr (replicate r (a + 1) @ replicate (nat K - r) a)"
    unfolding f2 using rng by (rule astype_int_array_of_int)
  have K0: "K \<noteq> 0" using assms(3) by simp
  show ?thesis
    unfolding divide_integer_K_def z using f1 f3 K0
    by (simp add: a_def r_def Let_def)
qed

lemma rne_tie_even: "even n \<Longrightarrow> rne (of_int n + 1 / 2) = n"
proof -
  assume e: "even n"
  have f: "\<lfloor>(of_int n :: rat) + 1 / 2\<rfloor> = n" by (simp add: floor_unique)
  show ?thesis unfolding rne_def Let_def f using e by simp
qed

lemma fl64_2_53_plus_1: "fl64 9007199254740993 = 9007199254740992"
proof -
  have p: "(0::rat) < 9007199254740993" by simp
  have lo: "(2::rat) powi 53 \<le> 9007199254740993" by simp
  have hi: "(9007199254740993::rat) < 2 powi (53 + 1)" by simp
  have "fl64 9007199254740993 =
        of_int (rne (9007199254740993 / 2 powi (max (53 - 52) (- 1074)))) *
        2 powi (max (53 - 52) (- 1074))"
    using p lo hi by (rule fl64_pos)
  moreover have "(9007199254740993::rat) / 2 powi (max (53 - 52) (- 1074)) =
                 of_int 4503599627370496 + 1 / 2" by simp
  moreover have "rne (of_int 4503599627370496 + 1 / 2) = 4503599627370496"
    by (rule rne_tie_even) simp
  ultimately show ?thesis by simp
qed

text \<open>
  C3. The claim is that for all \<open>N \<ge> 0\<close> and \<open>K > 0\<close> the parts sum to \<open>N\<close>. The
  code divides with \<open>/\<close>, which is float division: at \<open>N = 2^53 + 1\<close> and \<open>K = 1\<close> the
  quotient rounds to \<open>2^53\<close>, so the single part returned is \<open>2^53\<close> and not \<open>N\<close>.
\<close>

theorem divide_integer_K_loses_unit:
  "divide_integer_K np_shuffle g 9007199254740993 1 False = Inr ([9007199254740992], g)"
proof -
  have ov: "\<not> float_overflow 9007199254740992"
    by (rule float_overflow_small) simp
  have td: "true_div 9007199254740993 1 = Inr 9007199254740992"
    using fl64_2_53_plus_1 ov by (simp add: true_div_def)
  have iof: "int_of_float 9007199254740992 = 9007199254740992"
  proof -
    have "\<lfloor>(of_int 9007199254740992 :: rat)\<rfloor> = 9007199254740992" by (rule floor_of_int)
    then show ?thesis by (simp add: int_of_float_def)
  qed
  have foi: "float_of_int 9007199254740992 = Inr 9007199254740992"
    using float_of_int_exact[of 9007199254740992] by simp
  have fp: "fill_parts 9007199254740993 1 [0] [0] = Inr [9007199254740992]"
    using td iof foi by simp
  have as: "astype_int 9007199254740992 = Inr 9007199254740992"
    using iof by (simp add: astype_int_def)
  show ?thesis
    unfolding divide_integer_K_def using fp as by (simp add: np_zeros_def)
qed

section \<open>read\_file\<close>

lemma read_lines_ok:
  assumes "\<forall>line \<in> set lines.
             2 \<le> length (py_split (py_strip line)) \<and> py_int (py_split (py_strip line) ! 1) \<noteq> None"
  shows "read_lines lines container =
           Inr (container @ map (\<lambda>line. (py_split (py_strip line) ! 0,
                                          the (py_int (py_split (py_strip line) ! 1)))) lines)"
  using assms
proof (induction lines arbitrary: container)
  case Nil
  then show ?case by simp
next
  case (Cons line rest)
  from Cons.prems obtain v where
    v: "2 \<le> length (py_split (py_strip line))" "py_int (py_split (py_strip line) ! 1) = Some v"
    by auto
  have "read_line line = Inr (py_split (py_strip line) ! 0, v)"
    using v by (cases "py_split (py_strip line)") (auto simp: read_line_def Let_def)
  then show ?case using Cons v by simp
qed

lemma read_lines_bad:
  assumes "\<exists>line \<in> set lines.
             length (py_split (py_strip line)) < 2 \<or> py_int (py_split (py_strip line) ! 1) = None"
  shows "\<exists>e. read_lines lines container = Inl e"
  using assms
proof (induction lines arbitrary: container)
  case Nil
  then show ?case by simp
next
  case (Cons line rest)
  show ?case
  proof (cases "read_line line")
    case (Inl e)
    then show ?thesis by simp
  next
    case (Inr p)
    then have "\<not> (length (py_split (py_strip line)) < 2 \<or>
                   py_int (py_split (py_strip line) ! 1) = None)"
      by (auto simp: read_line_def Let_def split: if_splits option.splits)
    then have "\<exists>l \<in> set rest. length (py_split (py_strip l)) < 2 \<or>
                 py_int (py_split (py_strip l) ! 1) = None"
      using Cons.prems by auto
    then show ?thesis using Cons.IH Inr by simp
  qed
qed

text \<open>
  C8, as the code has it: on an existing file, \<open>read_file\<close> fails exactly when some
  line has fewer than two fields or a second field that \<open>int\<close> rejects; otherwise it
  returns, in order, the first field and the integer value of the second field of every
  line. Fields after the second are ignored.
\<close>

theorem read_file_result:
  assumes "fs filename = Some lines"
  shows "(if \<exists>line \<in> set lines.
               length (py_split (py_strip line)) < 2 \<or>
               py_int (py_split (py_strip line) ! 1) = None
          then \<exists>e. read_file fs filename = Inl e
          else read_file fs filename =
                 Inr (map (\<lambda>line. (py_split (py_strip line) ! 0,
                                    the (py_int (py_split (py_strip line) ! 1)))) lines))"
proof (cases "\<exists>line \<in> set lines.
               length (py_split (py_strip line)) < 2 \<or>
               py_int (py_split (py_strip line) ! 1) = None")
  case True
  then show ?thesis using assms read_lines_bad[of lines "[]"] by (simp add: read_file_def)
next
  case False
  then have "\<forall>line \<in> set lines.
               2 \<le> length (py_split (py_strip line)) \<and>
               py_int (py_split (py_strip line) ! 1) \<noteq> None"
    by (auto simp: not_less)
  then have "read_lines lines [] =
               Inr ([] @ map (\<lambda>line. (py_split (py_strip line) ! 0,
                                       the (py_int (py_split (py_strip line) ! 1)))) lines)"
    by (rule read_lines_ok)
  then show ?thesis using False assms by (simp add: read_file_def)
qed

lemma is_space_simps:
  "is_space CHR '' ''" "\<not> is_space CHR ''a''" "\<not> is_space CHR ''b''" "\<not> is_space CHR ''c''"
  "\<not> is_space CHR ''1''" "\<not> is_space CHR ''2''" "\<not> is_space CHR ''-''"
  by (simp_all add: is_space_def)

lemma fields_a_1_c: "py_split (py_strip ''a 1 c'') = [''a'', ''1'', ''c'']"
  by (simp add: py_split_def py_strip_def is_space_simps)

lemma fields_a_b: "py_split (py_strip ''a b'') = [''a'', ''b'']"
  by (simp add: py_split_def py_strip_def is_space_simps)

lemma fields_b_m2: "py_split (py_strip ''b -2'') = [''b'', ''-2'']"
  by (simp add: py_split_def py_strip_def is_space_simps)

lemma fields_a_2: "py_split (py_strip ''a 2'') = [''a'', ''2'']"
  by (simp add: py_split_def py_strip_def is_space_simps)

lemma py_int_examples:
  "py_int ''1'' = Some 1" "py_int ''2'' = Some 2" "py_int ''-2'' = Some (- 2)" "py_int ''b'' = None"
  by (simp_all add: py_int_def py_strip_def is_space_simps int_unsigned_def digit_val_def)

theorem read_file_result_witness:
  "single_file ''pairs.txt'' [''a 1 c'', ''b -2''] ''pairs.txt'' = Some [''a 1 c'', ''b -2''] \<and>
   read_file (single_file ''pairs.txt'' [''a 1 c'', ''b -2'']) ''pairs.txt'' =
     Inr [(''a'', 1), (''b'', - 2)]"
  using read_file_result [of "single_file ''pairs.txt'' [''a 1 c'', ''b -2'']" "''pairs.txt''"
      "[''a 1 c'', ''b -2'']"]
  by (simp add: single_file_def fields_a_1_c fields_b_m2 py_int_examples)

text \<open>
  The claim as stated fails in both directions: a line of three fields is read without
  failure, and a line of exactly two fields whose second is no integer fails.
\<close>

theorem read_file_counterexample:
  "length (py_split (py_strip ''a 1 c'')) = 3 \<and>
   read_file (single_file ''pairs.txt'' [''a 1 c'']) ''pairs.txt'' = Inr [(''a'', 1)] \<and>
   length (py_split (py_strip ''a b'')) = 2 \<and>
   read_file (single_file ''pairs.txt'' [''a b'']) ''pairs.txt'' = Inl ValueError"
  by (simp add: read_file_def read_line_def single_file_def fields_a_1_c fields_a_b py_int_examples)

section \<open>get\_files\_and\_labels\<close>

lemma dict_set_new: "k \<notin> set (dict_keys d) \<Longrightarrow> dict_set k v d = d @ [(k, v)]"
  by (induction d) (auto simp: dict_keys_def)

lemma gfl_line_dict:
  assumes "gfl_line name base idx flag line (f, l, ld, n, pr) = (f', l', ld', n', pr')"
  shows "(ld' = ld \<and> n' = n) \<or> (\<exists>k. k \<notin> set (dict_keys ld) \<and> ld' = ld @ [(k, n)] \<and> n' = n + 1)"
  using assms unfolding gfl_line_def
  by (auto simp: Let_def dict_set_new split: if_splits option.splits)

lemma gfl_lines_dict:
  assumes "gfl_lines name base idx flag lines (f, l, ld, n, pr) = (f', l', ld', n', pr')"
  shows "\<exists>new. ld' = ld @ new \<and>
               dict_values new = map (\<lambda>i. n + int i) [0..<length new] \<and>
               n' = n + int (length new) \<and>
               distinct (dict_keys new) \<and>
               set (dict_keys new) \<inter> set (dict_keys ld) = {}"
  using assms
proof (induction lines arbitrary: f l ld n pr)
  case Nil
  then show ?case by (simp add: dict_values_def dict_keys_def)
next
  case (Cons line rest)
  obtain f1 l1 ld1 n1 pr1 where
    st: "gfl_line name base idx flag line (f, l, ld, n, pr) = (f1, l1, ld1, n1, pr1)"
    by (cases "gfl_line name base idx flag line (f, l, ld, n, pr)") auto
  then have rest: "gfl_lines name base idx flag rest (f1, l1, ld1, n1, pr1) = (f', l', ld', n', pr')"
    using Cons.prems by simp
  from Cons.IH[OF rest] obtain new2 where
    n2: "ld' = ld1 @ new2"
        "dict_values new2 = map (\<lambda>i. n1 + int i) [0..<length new2]"
        "n' = n1 + int (length new2)"
        "distinct (dict_keys new2)"
        "set (dict_keys new2) \<inter> set (dict_keys ld1) = {}"
    by blast
  from gfl_line_dict[OF st] show ?case
  proof
    assume "ld1 = ld \<and> n1 = n"
    then show ?thesis using n2 by blast
  next
    assume "\<exists>k. k \<notin> set (dict_keys ld) \<and> ld1 = ld @ [(k, n)] \<and> n1 = n + 1"
    then obtain k where k: "k \<notin> set (dict_keys ld)" "ld1 = ld @ [(k, n)]" "n1 = n + 1" by blast
    let ?new = "(k, n) # new2"
    have a: "ld' = ld @ ?new" using n2(1) k(2) by simp
    have "map (\<lambda>i. n + int i) [0..<Suc (length new2)] =
          n # map (\<lambda>i. n + 1 + int i) [0..<length new2]"
      by (simp add: map_upt_Suc del: upt_Suc)
    then have b: "dict_values ?new = map (\<lambda>i. n + int i) [0..<length ?new]"
      using n2(2) k(3) by (simp add: dict_values_def del: upt_Suc)
    have c: "n' = n + int (length ?new)" using n2(3) k(3) by simp
    have kin: "k \<in> set (dict_keys ld1)" using k(2) by (simp add: dict_keys_def)
    then have "k \<notin> set (dict_keys new2)" using n2(5) by auto
    then have d: "distinct (dict_keys ?new)" using n2(4) by (simp add: dict_keys_def)
    have "set (dict_keys new2) \<inter> set (dict_keys ld) = {}"
      using n2(5) k(2) by (auto simp: dict_keys_def)
    then have e: "set (dict_keys ?new) \<inter> set (dict_keys ld) = {}"
      using k(1) by (simp add: dict_keys_def)
    from a b c d e show ?thesis by blast
  qed
qed

text \<open>
  Labels that are distinct in the input stay distinct in the output if no input label
  exceeds the one inserted last.
\<close>

lemma gfl_labels_stay_distinct:
  assumes "get_files_and_labels fs name base files labels ld dset_idx flag =
             Inr (files', labels', ld')"
    and "ld \<noteq> []"
  shows "\<exists>new. ld' = ld @ new \<and>
               dict_values new =
                 map (\<lambda>i. last (dict_values ld) + 1 + int i) [0..<length new] \<and>
               (distinct (dict_keys ld) \<longrightarrow> distinct (dict_keys ld')) \<and>
               (distinct (dict_values ld) \<and>
                (\<forall>v \<in> set (dict_values ld). v \<le> last (dict_values ld))
                \<longrightarrow> distinct (dict_values ld'))"
proof -
  let ?n = "last (dict_values ld) + 1"
  have n0: "initial_next_label ld = ?n"
    using assms(2) by (simp add: initial_next_label_def dict_values_def)
  obtain lines where lines: "fs name = Some lines"
    using assms(1) by (auto simp: get_files_and_labels_def Let_def split: option.splits)
  obtain n' pr' where
    run: "gfl_lines name base dset_idx flag lines (files, labels, ld, ?n, []) =
            (files', labels', ld', n', pr')"
    using assms(1) lines n0
    by (auto simp: get_files_and_labels_def Let_def split: prod.splits)
  from gfl_lines_dict[OF run] obtain new where
    new: "ld' = ld @ new"
         "dict_values new = map (\<lambda>i. ?n + int i) [0..<length new]"
         "distinct (dict_keys new)"
         "set (dict_keys new) \<inter> set (dict_keys ld) = {}"
    by blast
  have keys: "distinct (dict_keys ld) \<longrightarrow> distinct (dict_keys ld')"
    using new(1,3,4) by (auto simp: dict_keys_def)
  have dv: "distinct (dict_values new)"
    unfolding new(2) by (simp add: distinct_map inj_on_def)
  have above: "\<forall>w \<in> set (dict_values new). last (dict_values ld) < w"
    unfolding new(2) by auto
  have vals: "distinct (dict_values ld) \<and>
              (\<forall>v \<in> set (dict_values ld). v \<le> last (dict_values ld))
              \<longrightarrow> distinct (dict_values ld')"
  proof
    assume h: "distinct (dict_values ld) \<and>
               (\<forall>v \<in> set (dict_values ld). v \<le> last (dict_values ld))"
    have "set (dict_values ld) \<inter> set (dict_values new) = {}"
      using h above by fastforce
    moreover have "dict_values ld' = dict_values ld @ dict_values new"
      using new(1) by (simp add: dict_values_def)
    ultimately show "distinct (dict_values ld')" using h dv by simp
  qed
  from new(1,2) keys vals show ?thesis by blast
qed


subsection \<open>An index file that makes two keys share a label\<close>

lemma int_digits_zeros: "int_digits acc (replicate k CHR ''0'') = Some (acc * 10 ^ k)"
  by (induction k arbitrary: acc) (simp_all add: digit_val_def)

lemma is_space_digits: "\<not> is_space CHR ''0''" "\<not> is_space CHR ''1''" "\<not> is_space CHR ''f''"
  by (simp_all add: is_space_def)

lemma split_from_word:
  assumes "\<forall>c \<in> set w. \<not> is_space c" "cur @ w \<noteq> []"
  shows "split_from cur w = [cur @ w]"
  using assms by (induction w arbitrary: cur) auto

lemma py_strip_id:
  assumes "s \<noteq> []" "\<not> is_space (hd s)" "\<not> is_space (last s)"
  shows "py_strip s = s"
proof -
  have a: "dropWhile is_space s = s" using assms(1,2) by (cases s) auto
  have "rev s \<noteq> []" "\<not> is_space (hd (rev s))" using assms(1,3) by (simp_all add: hd_rev)
  then have "dropWhile is_space (rev s) = rev s" by (cases "rev s") auto
  then show ?thesis using a by (simp add: py_strip_def)
qed

text \<open>The index line \<open>f 10...0\<close> with \<open>k\<close> zeros has the fields \<open>f\<close> and \<open>10 ^ k\<close>.\<close>

lemma power_line_fields:
  "py_split (py_strip (power_line k)) = [''f'', ''1'' @ replicate k CHR ''0'']"
  unfolding power_line_def
proof -
  let ?s = "''f 1'' @ replicate k CHR ''0''"
  have l: "last ?s = (if k = 0 then CHR ''1'' else CHR ''0'')" by (cases k) auto
  have "py_strip ?s = ?s"
    by (rule py_strip_id) (simp_all add: l is_space_digits)
  moreover have "split_from [] ?s = [''f'', ''1'' @ replicate k CHR ''0'']"
    using split_from_word[of "replicate k CHR ''0''" "''1''"]
    by (simp add: is_space_digits is_space_simps)
  ultimately show "py_split (py_strip ?s) = [''f'', ''1'' @ replicate k CHR ''0'']"
    by (simp add: py_split_def)
qed

lemma power_less: "k < (10::nat) ^ k"
  by (induction k) auto

lemma power_line_int: "py_int (''1'' @ replicate k CHR ''0'') = Some (10 ^ k)"
proof -
  let ?w = "''1'' @ replicate k CHR ''0''"
  have l: "last ?w = (if k = 0 then CHR ''1'' else CHR ''0'')" by (cases k) auto
  have "py_strip ?w = ?w"
    by (rule py_strip_id) (simp_all add: l is_space_digits)
  then show ?thesis
    by (simp add: py_int_def int_unsigned_def digit_val_def int_digits_zeros)
qed


lemma gfl_power_line:
  assumes "gfl_line name base idx False (power_line k) (f, l, ld, n, pr) =
             (f', l', ld', n', pr')"
  shows "(idx, 10 ^ k) \<in> set (dict_keys ld')"
proof -
  have pi: "py_int (CHR ''1'' # replicate k CHR ''0'') = Some (10 ^ k)"
    using power_line_int[of k] by simp
  show ?thesis
    using assms unfolding gfl_line_def power_line_fields
    by (auto simp: pi Let_def dict_set_new dict_keys_def split: if_splits option.splits)
qed

lemma gfl_lines_keys_grow:
  assumes "gfl_lines name base idx flag lines (f, l, ld, n, pr) = (f', l', ld', n', pr')"
  shows "set (dict_keys ld) \<subseteq> set (dict_keys ld')"
  using gfl_lines_dict[OF assms] by (auto simp: dict_keys_def)

lemma gfl_power_lines:
  assumes "gfl_lines name base idx False (map (\<lambda>k. power_line k) ks)
             (f, l, ld, n, pr) = (f', l', ld', n', pr')"
  shows "(\<lambda>k. (idx, 10 ^ k)) ` set ks \<subseteq> set (dict_keys ld')"
  using assms
proof (induction ks arbitrary: f l ld n pr)
  case Nil
  then show ?case by simp
next
  case (Cons k ks)
  let ?line = "power_line k"
  obtain f1 l1 ld1 n1 pr1 where
    st: "gfl_line name base idx False ?line (f, l, ld, n, pr) = (f1, l1, ld1, n1, pr1)"
    by (cases "gfl_line name base idx False ?line (f, l, ld, n, pr)") auto
  then have rest: "gfl_lines name base idx False (map (\<lambda>k. power_line k) ks)
                     (f1, l1, ld1, n1, pr1) = (f', l', ld', n', pr')"
    using Cons.prems by simp
  have "(idx, 10 ^ k) \<in> set (dict_keys ld1)" using st by (rule gfl_power_line)
  then have "(idx, 10 ^ k) \<in> set (dict_keys ld')" using gfl_lines_keys_grow[OF rest] by blast
  then show ?case using Cons.IH[OF rest] by simp
qed

text \<open>
  If some label of the dictionary exceeds the label inserted last, an index file exists
  for which a new key receives a label that an old key has.
\<close>

lemma gfl_collision:
  fixes ld :: "(composite_label \<times> int) list"
  assumes "ld \<noteq> []" "v \<in> set (dict_values ld)" "last (dict_values ld) < v"
  shows "\<exists>fs files' labels' new.
           get_files_and_labels fs name base files labels ld idx False =
             Inr (files', labels', ld @ new) \<and>
           distinct (dict_keys new) \<and>
           set (dict_keys new) \<inter> set (dict_keys ld) = {} \<and>
           v \<in> set (dict_values new)"
proof -
  define L where "L = last (dict_values ld)"
  define m where "m = nat (v - L)"
  have m1: "1 \<le> m" and vm: "v = L + int m" using assms(3) unfolding m_def L_def by simp_all
  define B where "B = sum_list (map (\<lambda>kv. nat \<bar>snd (fst kv)\<bar>) ld)"
  define ks where "ks = map (\<lambda>j. Suc B + j) [0..<m]"
  define lines where "lines = map (\<lambda>k. power_line k) ks"
  have bound: "\<bar>snd (fst kv)\<bar> \<le> int B" if "kv \<in> set ld" for kv
  proof -
    have "nat \<bar>snd (fst kv)\<bar> \<le> B"
      unfolding B_def using that by (intro member_le_sum_list) auto
    then show ?thesis by linarith
  qed
  have fresh: "(idx, 10 ^ k) \<notin> set (dict_keys ld)" if "B < k" for k
  proof
    assume "(idx, 10 ^ k) \<in> set (dict_keys ld)"
    then obtain kv where kv: "kv \<in> set ld" "fst kv = (idx, 10 ^ k)"
      by (auto simp: dict_keys_def)
    have "int k < int (10 ^ k)" using power_less[of k] by (simp only: of_nat_less_iff)
    then have a: "int k < 10 ^ k" by simp
    have "\<bar>(10::int) ^ k\<bar> \<le> int B" using bound[OF kv(1)] kv(2) by simp
    then have b: "(10::int) ^ k \<le> int B" by linarith
    have c: "int B < int k" using that by simp
    from a b c show False by linarith
  qed
  have n0: "initial_next_label ld = L + 1"
    using assms(1) by (simp add: initial_next_label_def dict_values_def L_def)
  obtain f' l' ld' n' pr' where
    run: "gfl_lines name base idx False lines (files, labels, ld, L + 1, []) =
            (f', l', ld', n', pr')"
    by (cases "gfl_lines name base idx False lines (files, labels, ld, L + 1, [])") auto
  from gfl_lines_dict[OF run] obtain new where
    new: "ld' = ld @ new"
         "dict_values new = map (\<lambda>i. L + 1 + int i) [0..<length new]"
         "distinct (dict_keys new)"
         "set (dict_keys new) \<inter> set (dict_keys ld) = {}"
    by blast
  have sub: "(\<lambda>k. (idx, (10::int) ^ k)) ` set ks \<subseteq> set (dict_keys ld')"
    using run unfolding lines_def by (rule gfl_power_lines)
  have ksB: "B < k" if "k \<in> set ks" for k using that unfolding ks_def by auto
  have "(\<lambda>k. (idx, (10::int) ^ k)) ` set ks \<subseteq> set (dict_keys new)"
  proof
    fix x assume x: "x \<in> (\<lambda>k. (idx, (10::int) ^ k)) ` set ks"
    then obtain k where k: "k \<in> set ks" "x = (idx, 10 ^ k)" by blast
    have "x \<in> set (dict_keys ld')" using sub x by blast
    moreover have "x \<notin> set (dict_keys ld)" using fresh[OF ksB[OF k(1)]] k(2) by simp
    ultimately show "x \<in> set (dict_keys new)" using new(1) by (auto simp: dict_keys_def)
  qed
  then have "card ((\<lambda>k. (idx, (10::int) ^ k)) ` set ks) \<le> card (set (dict_keys new))"
    by (intro card_mono) auto
  moreover have "inj_on (\<lambda>k. (idx, (10::int) ^ k)) (set ks)"
    by (intro inj_onI) simp
  then have "card ((\<lambda>k. (idx, (10::int) ^ k)) ` set ks) = card (set ks)" by (rule card_image)
  moreover have "distinct ks" unfolding ks_def by (simp add: distinct_map inj_on_def)
  then have "card (set ks) = length ks" by (rule distinct_card)
  then have "card (set ks) = m" unfolding ks_def by simp
  moreover have "card (set (dict_keys new)) = length new"
    using distinct_card[OF new(3)] by (simp add: dict_keys_def)
  ultimately have mn: "m \<le> length new" by simp
  have "m - 1 < length new" using m1 mn by simp
  then have "L + 1 + int (m - 1) \<in> set (map (\<lambda>i. L + 1 + int i) [0..<length new])"
    by auto
  moreover have "L + 1 + int (m - 1) = v" using vm m1 by simp
  ultimately have vin: "v \<in> set (dict_values new)" unfolding new(2) by simp
  have "get_files_and_labels (\<lambda>_. Some lines) name base files labels ld idx False =
          Inr (f', l', ld @ new)"
    using run n0 new(1) by (simp add: get_files_and_labels_def)
  with new(3,4) vin show ?thesis by blast
qed

text \<open>
  C10, as the code has it. With a non-empty label dictionary the new entries are
  appended after the old ones and carry the labels \<open>last + 1, last + 2, ...\<close>, where
  \<open>last\<close> is the value inserted most recently. Consequently distinct labels are
  guaranteed for every index file only if \<open>last\<close> is the largest label of the input:
  when some input label exceeds \<open>last\<close>, there is an index file for which a new key
  receives a label that an old key has.
\<close>

theorem get_files_and_labels_new_labels:
  fixes ld :: "(composite_label \<times> int) list"
  assumes "ld \<noteq> []"
  shows "(get_files_and_labels fs name base files labels ld dset_idx flag =
            Inr (files', labels', ld') \<longrightarrow>
          (\<exists>new. ld' = ld @ new \<and>
                 dict_values new =
                   map (\<lambda>i. last (dict_values ld) + 1 + int i) [0..<length new])) \<and>
         ((\<exists>v \<in> set (dict_values ld). last (dict_values ld) < v) \<longrightarrow>
          (\<exists>fs2 files2 labels2 new.
             get_files_and_labels fs2 name base files labels ld dset_idx False =
               Inr (files2, labels2, ld @ new) \<and>
             set (dict_keys new) \<inter> set (dict_keys ld) = {} \<and>
             set (dict_values new) \<inter> set (dict_values ld) \<noteq> {}))"
proof (intro conjI impI)
  assume run: "get_files_and_labels fs name base files labels ld dset_idx flag =
                 Inr (files', labels', ld')"
  from gfl_labels_stay_distinct[OF run assms]
  show "\<exists>new. ld' = ld @ new \<and>
              dict_values new =
                map (\<lambda>i. last (dict_values ld) + 1 + int i) [0..<length new]"
    by blast
next
  assume "\<exists>v \<in> set (dict_values ld). last (dict_values ld) < v"
  then obtain v where v: "v \<in> set (dict_values ld)" "last (dict_values ld) < v" by blast
  from gfl_collision[OF assms v, of name base files labels dset_idx]
  obtain fs2 files2 labels2 new where
    c: "get_files_and_labels fs2 name base files labels ld dset_idx False =
          Inr (files2, labels2, ld @ new)"
       "set (dict_keys new) \<inter> set (dict_keys ld) = {}"
       "v \<in> set (dict_values new)"
    by blast
  have "set (dict_values new) \<inter> set (dict_values ld) \<noteq> {}" using c(3) v(1) by blast
  with c(1,2)
  show "\<exists>fs2 files2 labels2 new.
          get_files_and_labels fs2 name base files labels ld dset_idx False =
            Inr (files2, labels2, ld @ new) \<and>
          set (dict_keys new) \<inter> set (dict_keys ld) = {} \<and>
          set (dict_values new) \<inter> set (dict_values ld) \<noteq> {}"
    by blast
qed

lemma gfl_example_run:
  "get_files_and_labels (single_file ''index.txt'' [''a 2'']) ''index.txt'' ''base'' [] []
     [((0, 0), v0), ((0, 1), v1)] 0 False =
   Inr ([''base/a''], [v1 + 1], [((0, 0), v0), ((0, 1), v1), ((0, 2), v1 + 1)])"
  by (simp add: get_files_and_labels_def gfl_line_def initial_next_label_def dict_values_def
      dict_keys_def single_file_def fields_a_2 py_int_examples path_join_def Let_def)

theorem get_files_and_labels_new_labels_witness:
  "get_files_and_labels (single_file ''index.txt'' [''a 2'']) ''index.txt'' ''base'' [] []
     [((0, 0), 5), ((0, 1), 0)] 0 False =
   Inr ([''base/a''], [1], [((0, 0), 5), ((0, 1), 0), ((0, 2), 1)]) \<and>
   (\<exists>new :: (composite_label \<times> int) list.
      [((0, 0), 5), ((0, 1), 0), ((0, 2), 1)] = [((0, 0), 5), ((0, 1), 0)] @ new \<and>
      dict_values new = map (\<lambda>i. 0 + 1 + int i) [0..<length new]) \<and>
   (\<exists>fs2 files2 labels2 new.
      get_files_and_labels fs2 ''index.txt'' ''base'' [] [] [((0, 0), 5), ((0, 1), 0)] 0 False =
        Inr (files2, labels2, [((0, 0), 5), ((0, 1), 0)] @ new) \<and>
      set (dict_keys new) \<inter> set (dict_keys [((0 :: int, 0 :: int), 5 :: int), ((0, 1), 0)]) = {} \<and>
      set (dict_values new) \<inter> set (dict_values [((0 :: int, 0 :: int), 5 :: int), ((0, 1), 0)])
        \<noteq> {})"
proof -
  let ?ld = "[((0 :: int, 0 :: int), 5 :: int), ((0, 1), 0)]"
  have run: "get_files_and_labels (single_file ''index.txt'' [''a 2'']) ''index.txt'' ''base'' [] []
               ?ld 0 False =
             Inr ([''base/a''], [1], [((0, 0), 5), ((0, 1), 0), ((0, 2), 1)])"
    using gfl_example_run [of 5 0] by simp
  have ne: "?ld \<noteq> []" by simp
  have big: "\<exists>v \<in> set (dict_values ?ld). last (dict_values ?ld) < v"
    by (simp add: dict_values_def)
  have l: "last (dict_values ?ld) = 0" by (simp add: dict_values_def)
  note t = get_files_and_labels_new_labels [OF ne,
      of "single_file ''index.txt'' [''a 2'']" "''index.txt''" "''base''" "[]" "[]" 0 False
         "[''base/a'']" "[1]" "[((0, 0), 5), ((0, 1), 0), ((0, 2), 1)]"]
  have a: "\<exists>new. [((0, 0), 5), ((0, 1), 0), ((0, 2), 1)] = ?ld @ new \<and>
             dict_values new = map (\<lambda>i. 0 + 1 + int i) [0..<length new]"
    using mp[OF conjunct1[OF t] run] unfolding l .
  have b: "\<exists>fs2 files2 labels2 new.
      get_files_and_labels fs2 ''index.txt'' ''base'' [] [] ?ld 0 False =
        Inr (files2, labels2, ?ld @ new) \<and>
      set (dict_keys new) \<inter> set (dict_keys ?ld) = {} \<and>
      set (dict_values new) \<inter> set (dict_values ?ld) \<noteq> {}"
    using mp[OF conjunct2[OF t] big] .
  from run a b show ?thesis by (intro conjI)
qed

text \<open>
  The dictionary of the example with five new keys: the fifth receives the label \<open>5\<close>,
  which the key \<open>(0, 0)\<close> has.
\<close>

lemma gfl_five_new_keys:
  "get_files_and_labels (single_file ''index.txt'' [''a 2'', ''b 3'', ''c 4'', ''d 5'', ''e 6''])
     ''index.txt'' ''base'' [] [] [((0, 0), 5), ((0, 1), 0)] 0 False =
   Inr ([''base/a'', ''base/b'', ''base/c'', ''base/d'', ''base/e''], [1, 2, 3, 4, 5],
        [((0, 0), 5), ((0, 1), 0), ((0, 2), 1), ((0, 3), 2), ((0, 4), 3), ((0, 5), 4),
         ((0, 6), 5)])"
  by (simp add: get_files_and_labels_def gfl_line_def initial_next_label_def dict_values_def
      dict_keys_def single_file_def py_split_def py_strip_def is_space_def py_int_def
      int_unsigned_def digit_val_def path_join_def Let_def)

text \<open>
  Read for one call, the claim's necessary condition fails: here the value inserted
  last (\<open>0\<close>) is not the largest value (\<open>5\<close>), and the updated dictionary still has
  distinct keys and distinct labels.
\<close>

theorem get_files_and_labels_counterexample:
  "get_files_and_labels (single_file ''index.txt'' [''a 2'']) ''index.txt'' ''base'' [] []
     [((0, 0), 5), ((0, 1), 0)] 0 False =
   Inr ([''base/a''], [1], [((0, 0), 5), ((0, 1), 0), ((0, 2), 1)]) \<and>
   distinct (dict_keys [((0 :: int, 0 :: int), 5 :: int), ((0, 1), 0), ((0, 2), 1)]) \<and>
   distinct (dict_values [((0 :: int, 0 :: int), 5 :: int), ((0, 1), 0), ((0, 2), 1)]) \<and>
   last (dict_values [((0 :: int, 0 :: int), 5 :: int), ((0, 1), 0)]) <
     Max (set (dict_values [((0 :: int, 0 :: int), 5 :: int), ((0, 1), 0)]))"
  using gfl_example_run [of 5 0] by (simp add: dict_values_def dict_keys_def)

section \<open>Item access and verification\<close>

text \<open>
  C6. On an initialized instance, \<open>__getitem__\<close> and \<open>original_image_path_for_index\<close>
  raise \<open>AssertionError\<close> exactly for an index outside \<open>0 \<le> index \<le> len\<close>. The index
  \<open>len\<close> passes the assertion; the list access that follows it raises \<open>IndexError\<close>.
\<close>

theorem index_validation_inclusive:
  assumes "initialized_correctly ds"
  shows "(getitem env ds i = Inl AssertionError \<longleftrightarrow> \<not> (0 \<le> i \<and> i \<le> int (length (images ds)))) \<and>
         (original_image_path_for_index ds i = Inl AssertionError \<longleftrightarrow>
            \<not> (0 \<le> i \<and> i \<le> int (length (images ds)))) \<and>
         (i = int (length (images ds)) \<longrightarrow>
            getitem env ds i = Inl IndexError \<and>
            original_image_path_for_index ds i = Inl IndexError)"
proof -
  have p: "original_image_path_for_index ds i = Inl AssertionError \<longleftrightarrow>
             \<not> (0 \<le> i \<and> i \<le> int (length (images ds)))"
    by (auto simp: original_image_path_for_index_def py_index_def split: sum.splits if_splits)
  have g: "getitem env ds i = Inl AssertionError \<longleftrightarrow> \<not> (0 \<le> i \<and> i \<le> int (length (images ds)))"
    using assms
    by (auto simp: getitem_def original_image_path_for_index_def py_index_def Let_def
        split: sum.splits if_splits option.splits)
  have e: "i = int (length (images ds)) \<longrightarrow>
             getitem env ds i = Inl IndexError \<and>
             original_image_path_for_index ds i = Inl IndexError"
    using assms
    by (auto simp: getitem_def original_image_path_for_index_def py_index_def)
  from p g e show ?thesis by blast
qed

theorem index_validation_inclusive_witness:
  "initialized_correctly (example_dataset ''features'' None [example_image ''h0'' 0]) \<and>
   getitem (example_env []) (example_dataset ''features'' None [example_image ''h0'' 0]) 1 =
     Inl IndexError \<and>
   original_image_path_for_index (example_dataset ''features'' None [example_image ''h0'' 0]) 1 =
     Inl IndexError \<and>
   getitem (example_env []) (example_dataset ''features'' None [example_image ''h0'' 0]) 2 =
     Inl AssertionError \<and>
   getitem (example_env []) (example_dataset ''features'' None [example_image ''h0'' 0]) (- 1) =
     Inl AssertionError \<and>
   getitem (example_env []) (example_dataset ''features'' None [example_image ''h0'' 0]) 0 =
     Inr (Features [], 0)"
proof -
  let ?ds = "example_dataset ''features'' None [example_image ''h0'' 0]"
  have i: "initialized_correctly ?ds" by (simp add: example_dataset_def)
  have len: "int (length (images ?ds)) = 1" by (simp add: example_dataset_def)
  have a: "getitem (example_env []) ?ds 1 = Inl IndexError \<and>
           original_image_path_for_index ?ds 1 = Inl IndexError"
    using index_validation_inclusive [OF i, of "example_env []" 1] len by simp
  have b: "getitem (example_env []) ?ds 2 = Inl AssertionError"
    using index_validation_inclusive [OF i, of "example_env []" 2] len by simp
  have c: "getitem (example_env []) ?ds (- 1) = Inl AssertionError"
    using index_validation_inclusive [OF i, of "example_env []" "- 1"] len by simp
  have d: "getitem (example_env []) ?ds 0 = Inr (Features [], 0)"
    by (simp add: getitem_def example_dataset_def example_image_def py_index_def)
  from i a b c d show ?thesis by blast
qed

text \<open>
  C5. The claim is that without a pipeline the converted image is returned. In the
  code nothing is assigned to \<open>image_tensor\<close> in that case: in \<open>original\<close> mode, at a valid
  index whose image opens, \<open>__getitem__\<close> raises \<open>UnboundLocalError\<close>.
\<close>

theorem getitem_without_pipeline_raises:
  assumes "initialized_correctly ds"
    and "input_type ds = ''original''"
    and "pipeline ds = None"
    and "0 \<le> index" "index < int (length (images ds))"
    and "Image_open env
           (root_path ds @ dataset_name ds @ ''/'' @ relative_path (images ds ! nat index)) =
         Some img"
  shows "getitem env ds index = Inl UnboundLocalError"
  using assms
  by (simp add: getitem_def original_image_path_for_index_def py_index_def)

lemma getitem_without_pipeline_never_returns:
  assumes "input_type ds \<noteq> ''features''" "pipeline ds = None"
  shows "\<exists>e. getitem env ds index = Inl e"
  using assms
  by (auto simp: getitem_def Let_def split: sum.splits option.splits)

theorem getitem_without_pipeline_raises_witness:
  "initialized_correctly (example_dataset ''original'' None [example_image ''h0'' 0]) \<and>
   input_type (example_dataset ''original'' None [example_image ''h0'' 0]) = ''original'' \<and>
   pipeline (example_dataset ''original'' None [example_image ''h0'' 0]) = None \<and>
   getitem (example_env []) (example_dataset ''original'' None [example_image ''h0'' 0]) 0 =
     Inl UnboundLocalError"
proof -
  let ?ds = "example_dataset ''original'' None [example_image ''h0'' 0]"
  have a: "initialized_correctly ?ds" "input_type ?ds = ''original''" "pipeline ?ds = None"
    by (simp_all add: example_dataset_def)
  have b: "(0::int) \<le> 0" "0 < int (length (images ?ds))"
    by (simp_all add: example_dataset_def)
  have c: "Image_open (example_env [])
             (root_path ?ds @ dataset_name ?ds @ ''/'' @ relative_path (images ?ds ! nat 0)) =
           Some ()"
    by (simp add: example_env_def)
  from getitem_without_pipeline_raises [OF a b c] a show ?thesis by blast
qed

lemma load_feature_vectors_ok:
  assumes "set (map file_hash ims) \<subseteq> set (dict_keys file_h)"
  shows "\<exists>ims'. load_feature_vectors file_h ims = Inr ims' \<and>
                list_all2 (\<lambda>im im'. map_of file_h (file_hash im) = Some (feature_vector im') \<and>
                                    im' = im\<lparr>feature_vector := feature_vector im'\<rparr>) ims ims'"
  using assms
proof (induction ims)
  case Nil
  then show ?case by simp
next
  case (Cons im ims)
  then have "file_hash im \<in> fst ` set file_h" by (simp add: dict_keys_def)
  then obtain v where v: "map_of file_h (file_hash im) = Some v"
    by (metis map_of_eq_None_iff not_Some_eq)
  from Cons obtain ims' where
    r: "load_feature_vectors file_h ims = Inr ims'"
       "list_all2 (\<lambda>im im'. map_of file_h (file_hash im) = Some (feature_vector im') \<and>
                             im' = im\<lparr>feature_vector := feature_vector im'\<rparr>) ims ims'"
    by auto
  show ?case using v r by simp
qed

text \<open>
  C7. With a backbone configured and \<open>fname\<close> the store's path: a missing store file
  gives failure; a store that lacks a required hash gives failure and reports exactly
  the set of required hashes that are not keys; a store with every required hash gives
  success, and unless loading is skipped every item then carries, position by position,
  the array stored under its file hash.
\<close>

theorem verify_feature_vectors_cases:
  assumes "vector_type ds = Some vt"
    and "fname = VECTORS_ROOT_PATH @ vt @ ''/'' @ dataset_name ds @ ''.h5''"
  shows "(\<not> isfile env fname \<longrightarrow>
            verify_feature_vectors_exist_and_load env ds skip_load =
              Inr (False, [VerifyingFeatureVectors vt (\<not> skip_load),
                           FeatureVectorFileMissing fname], ds)) \<and>
         (isfile env fname \<and> h5py_File env fname = Some file_h \<and>
          \<not> set (map file_hash (images ds)) \<subseteq> set (dict_keys file_h) \<longrightarrow>
            verify_feature_vectors_exist_and_load env ds skip_load =
              Inr (False, [VerifyingFeatureVectors vt (\<not> skip_load),
                           MissingFeatureVectors
                             (set (map file_hash (images ds)) - set (dict_keys file_h))], ds)) \<and>
         (isfile env fname \<and> h5py_File env fname = Some file_h \<and>
          set (map file_hash (images ds)) \<subseteq> set (dict_keys file_h) \<longrightarrow>
            verify_feature_vectors_exist_and_load env ds True =
              Inr (True, [VerifyingFeatureVectors vt False], ds) \<and>
            (\<exists>ims. verify_feature_vectors_exist_and_load env ds False =
                     Inr (True, [VerifyingFeatureVectors vt True], ds\<lparr>images := ims\<rparr>) \<and>
                   list_all2 (\<lambda>im im'. map_of file_h (file_hash im) = Some (feature_vector im') \<and>
                                       im' = im\<lparr>feature_vector := feature_vector im'\<rparr>)
                     (images ds) ims))"
proof -
  have a: "\<not> isfile env fname \<longrightarrow>
            verify_feature_vectors_exist_and_load env ds skip_load =
              Inr (False, [VerifyingFeatureVectors vt (\<not> skip_load),
                           FeatureVectorFileMissing fname], ds)"
    using assms by (simp add: verify_feature_vectors_exist_and_load_def Let_def)
  have b: "isfile env fname \<and> h5py_File env fname = Some file_h \<and>
          \<not> set (map file_hash (images ds)) \<subseteq> set (dict_keys file_h) \<longrightarrow>
            verify_feature_vectors_exist_and_load env ds skip_load =
              Inr (False, [VerifyingFeatureVectors vt (\<not> skip_load),
                           MissingFeatureVectors
                             (set (map file_hash (images ds)) - set (dict_keys file_h))], ds)"
    using assms by (auto simp: verify_feature_vectors_exist_and_load_def Let_def)
  have c: "isfile env fname \<and> h5py_File env fname = Some file_h \<and>
          set (map file_hash (images ds)) \<subseteq> set (dict_keys file_h) \<longrightarrow>
            verify_feature_vectors_exist_and_load env ds True =
              Inr (True, [VerifyingFeatureVectors vt False], ds) \<and>
            (\<exists>ims. verify_feature_vectors_exist_and_load env ds False =
                     Inr (True, [VerifyingFeatureVectors vt True], ds\<lparr>images := ims\<rparr>) \<and>
                   list_all2 (\<lambda>im im'. map_of file_h (file_hash im) = Some (feature_vector im') \<and>
                                       im' = im\<lparr>feature_vector := feature_vector im'\<rparr>)
                     (images ds) ims)"
  proof (intro impI)
    assume h: "isfile env fname \<and> h5py_File env fname = Some file_h \<and>
               set (map file_hash (images ds)) \<subseteq> set (dict_keys file_h)"
    then have sub: "set (map file_hash (images ds)) \<subseteq> set (dict_keys file_h)" by blast
    then have empty: "set (map file_hash (images ds)) - set (dict_keys file_h) = {}" by blast
    from load_feature_vectors_ok[OF sub] obtain ims where
      ims: "load_feature_vectors file_h (images ds) = Inr ims"
           "list_all2 (\<lambda>im im'. map_of file_h (file_hash im) = Some (feature_vector im') \<and>
                                 im' = im\<lparr>feature_vector := feature_vector im'\<rparr>) (images ds) ims"
      by blast
    have s: "verify_feature_vectors_exist_and_load env ds True =
               Inr (True, [VerifyingFeatureVectors vt False], ds)"
      using assms h empty by (simp add: verify_feature_vectors_exist_and_load_def Let_def)
    have l: "verify_feature_vectors_exist_and_load env ds False =
               Inr (True, [VerifyingFeatureVectors vt True], ds\<lparr>images := ims\<rparr>)"
      using assms h empty ims(1) by (simp add: verify_feature_vectors_exist_and_load_def Let_def)
    from s l ims(2) show "verify_feature_vectors_exist_and_load env ds True =
              Inr (True, [VerifyingFeatureVectors vt False], ds) \<and>
            (\<exists>ims. verify_feature_vectors_exist_and_load env ds False =
                     Inr (True, [VerifyingFeatureVectors vt True], ds\<lparr>images := ims\<rparr>) \<and>
                   list_all2 (\<lambda>im im'. map_of file_h (file_hash im) = Some (feature_vector im') \<and>
                                       im' = im\<lparr>feature_vector := feature_vector im'\<rparr>)
                     (images ds) ims)"
      by blast
  qed
  from a b c show ?thesis by blast
qed

theorem verify_feature_vectors_cases_witness:
  "vector_type (example_dataset ''features'' None [example_image ''h1'' 0]) = Some ''resnet50'' \<and>
   verify_feature_vectors_exist_and_load (example_env [])
       (example_dataset ''features'' None [example_image ''h1'' 0]) False =
     Inr (True, [VerifyingFeatureVectors ''resnet50'' True],
          example_dataset ''features'' None [(example_image ''h1'' 0)\<lparr>feature_vector := [3, 4]\<rparr>]) \<and>
   verify_feature_vectors_exist_and_load (example_env [])
       (example_dataset ''features'' None [example_image ''h2'' 0]) False =
     Inr (False, [VerifyingFeatureVectors ''resnet50'' True, MissingFeatureVectors {''h2''}],
          example_dataset ''features'' None [example_image ''h2'' 0])"
proof -
  let ?ds = "example_dataset ''features'' None [example_image ''h1'' 0]"
  let ?ds2 = "example_dataset ''features'' None [example_image ''h2'' 0]"
  let ?f = "VECTORS_ROOT_PATH @ ''resnet50'' @ ''/'' @ ''task'' @ ''.h5''"
  let ?h = "[(''h0'', [1, 2]), (''h1'', [3, 4 :: int])]"
  have vt: "vector_type ?ds = Some ''resnet50''" "vector_type ?ds2 = Some ''resnet50''"
    by (simp_all add: example_dataset_def)
  have fn: "?f = VECTORS_ROOT_PATH @ ''resnet50'' @ ''/'' @ dataset_name ?ds @ ''.h5''"
           "?f = VECTORS_ROOT_PATH @ ''resnet50'' @ ''/'' @ dataset_name ?ds2 @ ''.h5''"
    by (simp_all add: example_dataset_def)
  have env: "isfile (example_env []) ?f" "h5py_File (example_env []) ?f = Some ?h"
    by (simp_all add: example_env_def)
  have sub: "set (map file_hash (images ?ds)) \<subseteq> set (dict_keys ?h)"
    by (simp add: example_dataset_def example_image_def dict_keys_def)
  have nsub: "\<not> set (map file_hash (images ?ds2)) \<subseteq> set (dict_keys ?h)"
    by (simp add: example_dataset_def example_image_def dict_keys_def)
  from verify_feature_vectors_cases [OF vt(1) fn(1), of "example_env []" False ?h] env sub
  obtain ims where
    ims: "verify_feature_vectors_exist_and_load (example_env []) ?ds False =
            Inr (True, [VerifyingFeatureVectors ''resnet50'' True], ?ds\<lparr>images := ims\<rparr>)"
         "list_all2 (\<lambda>im im'. map_of ?h (file_hash im) = Some (feature_vector im') \<and>
                               im' = im\<lparr>feature_vector := feature_vector im'\<rparr>) (images ?ds) ims"
    by blast
  from ims(2) have "ims = [(example_image ''h1'' 0)\<lparr>feature_vector := [3, 4]\<rparr>]"
    by (auto simp: example_dataset_def example_image_def list_all2_Cons1)
  then have ok: "verify_feature_vectors_exist_and_load (example_env []) ?ds False =
     Inr (True, [VerifyingFeatureVectors ''resnet50'' True],
          example_dataset ''features'' None [(example_image ''h1'' 0)\<lparr>feature_vector := [3, 4]\<rparr>])"
    using ims(1) by (simp add: example_dataset_def)
  have "set (map file_hash (images ?ds2)) - set (dict_keys ?h) = {''h2''}"
    by (simp add: example_dataset_def example_image_def dict_keys_def)
  then have bad: "verify_feature_vectors_exist_and_load (example_env []) ?ds2 False =
     Inr (False, [VerifyingFeatureVectors ''resnet50'' True, MissingFeatureVectors {''h2''}], ?ds2)"
    using verify_feature_vectors_cases [OF vt(2) fn(2), of "example_env []" False ?h] env nsub
    by simp
  from vt(1) ok bad show ?thesis by blast
qed

section \<open>Grouping and the label dictionary\<close>

lemma first_seen_snoc:
  "first_seen (xs @ [x]) = (if x \<in> set xs then first_seen xs else first_seen xs @ [x])"
  by (simp add: first_seen_def)

lemma first_seen_distinct: "distinct (first_seen xs)"
  by (simp add: first_seen_def)

lemma first_seen_set: "set (first_seen xs) = set xs"
  by (simp add: first_seen_def)

lemma first_seen_Nil: "first_seen [] = []"
  by (simp add: first_seen_def)

lemma map_of_keyed:
  "map_of (map (\<lambda>k. (k, f k)) ks) c = (if c \<in> set ks then Some (f c) else None)"
  by (induction ks) auto

lemma dict_set_keyed:
  assumes "distinct ks" "c \<in> set ks"
  shows "dict_set c v (map (\<lambda>k. (k, f k)) ks) = map (\<lambda>k. (k, if k = c then v else f k)) ks"
  using assms
proof (induction ks)
  case Nil
  then show ?case by simp
next
  case (Cons k ks)
  show ?case
  proof (cases "k = c")
    case True
    then have "c \<notin> set ks" using Cons.prems by simp
    then have "map (\<lambda>k. (k, if k = c then v else f k)) ks = map (\<lambda>k. (k, f k)) ks"
      by (intro map_cong) auto
    then show ?thesis using True by simp
  next
    case False
    then show ?thesis using Cons by simp
  qed
qed

text \<open>The dictionary after grouping: every class in first-seen order with its rows in order.\<close>

lemma group_row_step:
  "group_row
     (map (\<lambda>k. (k, map row_entry (filter (\<lambda>r. row_class r = k) pre)))
        (first_seen (map row_class pre))) r =
   map (\<lambda>k. (k, map row_entry (filter (\<lambda>r. row_class r = k) (pre @ [r]))))
     (first_seen (map row_class (pre @ [r])))"
proof -
  obtain h p c s pr where r: "r = (h, p, c, s, pr)" by (cases r) auto
  let ?ks = "first_seen (map row_class pre)"
  let ?f = "\<lambda>k. map row_entry (filter (\<lambda>r. row_class r = k) pre)"
  have rc: "row_class r = c" "row_entry r = (h, p, s, pr)"
    by (simp_all add: r row_class_def row_entry_def)
  show ?thesis
  proof (cases "c \<in> set (map row_class pre)")
    case True
    then have cks: "c \<in> set ?ks" by (simp add: first_seen_set)
    have "group_row (map (\<lambda>k. (k, ?f k)) ?ks) r =
          dict_set c (?f c @ [(h, p, s, pr)]) (map (\<lambda>k. (k, ?f k)) ?ks)"
      using cks by (simp add: group_row_def r map_of_keyed)
    also have "\<dots> = map (\<lambda>k. (k, if k = c then ?f c @ [(h, p, s, pr)] else ?f k)) ?ks"
      using cks by (intro dict_set_keyed first_seen_distinct)
    also have "\<dots> = map (\<lambda>k. (k, map row_entry (filter (\<lambda>r. row_class r = k) (pre @ [r])))) ?ks"
      using rc by (intro map_cong) auto
    finally show ?thesis using True rc by (simp add: first_seen_snoc)
  next
    case False
    let ?g = "\<lambda>k. map row_entry (filter (\<lambda>r. row_class r = k) (pre @ [r]))"
    from False have cks: "c \<notin> set ?ks" by (simp add: first_seen_set)
    then have nk: "c \<notin> set (dict_keys (map (\<lambda>k. (k, ?f k)) ?ks))"
      by (simp add: dict_keys_def comp_def)
    have fc: "filter (\<lambda>r. row_class r = c) pre = []"
      using False by (auto simp: filter_empty_conv)
    have e1: "group_row (map (\<lambda>k. (k, ?f k)) ?ks) r =
              dict_set c [(h, p, s, pr)] (map (\<lambda>k. (k, ?f k)) ?ks)"
      using cks by (simp add: group_row_def r map_of_keyed)
    have e2: "dict_set c [(h, p, s, pr)] (map (\<lambda>k. (k, ?f k)) ?ks) =
              map (\<lambda>k. (k, ?f k)) ?ks @ [(c, [(h, p, s, pr)])]"
      using nk by (rule dict_set_new)
    have e3: "map (\<lambda>k. (k, ?f k)) ?ks = map (\<lambda>k. (k, ?g k)) ?ks"
      using rc cks by (intro map_cong) auto
    have e4: "?g c = [(h, p, s, pr)]" using rc fc by simp
    have e5: "first_seen (map row_class (pre @ [r])) = ?ks @ [c]"
      using False rc by (simp add: first_seen_snoc)
    have a: "group_row (map (\<lambda>k. (k, ?f k)) ?ks) r =
             map (\<lambda>k. (k, ?f k)) ?ks @ [(c, [(h, p, s, pr)])]"
      by (rule trans[OF e1 e2])
    have b: "map (\<lambda>k. (k, ?f k)) ?ks @ [(c, [(h, p, s, pr)])] =
             map (\<lambda>k. (k, ?g k)) ?ks @ [(c, ?g c)]"
      by (simp only: e3 e4)
    have c: "map (\<lambda>k. (k, ?g k)) (first_seen (map row_class (pre @ [r]))) =
             map (\<lambda>k. (k, ?g k)) ?ks @ [(c, ?g c)]"
      by (subst e5) simp
    show ?thesis by (rule trans[OF a trans[OF b c[symmetric]]])
  qed
qed

lemma group_rows_from:
  "group_rows rows
     (map (\<lambda>k. (k, map row_entry (filter (\<lambda>r. row_class r = k) pre)))
        (first_seen (map row_class pre))) =
   map (\<lambda>k. (k, map row_entry (filter (\<lambda>r. row_class r = k) (pre @ rows))))
     (first_seen (map row_class (pre @ rows)))"
proof (induction rows arbitrary: pre)
  case Nil
  then show ?case by simp
next
  case (Cons r rows)
  show ?case using Cons.IH[of "pre @ [r]"] by (simp add: group_row_step)
qed

lemma group_rows_closed:
  "group_rows rows [] =
   map (\<lambda>k. (k, map row_entry (filter (\<lambda>r. row_class r = k) rows)))
     (first_seen (map row_class rows))"
  using group_rows_from[of rows "[]"] by (simp add: first_seen_Nil)

lemma group_rows_keys: "dict_keys (group_rows rows []) = first_seen (map row_class rows)"
  by (simp add: group_rows_closed dict_keys_def comp_def)

lemma assign_labels_zip:
  assumes "distinct ks" "set ks \<inter> set (dict_keys ld) = {}"
  shows "assign_labels ks u ld = ld @ zip ks (map (\<lambda>j. u + int j) [0..<length ks])"
  using assms
proof (induction ks arbitrary: u ld)
  case Nil
  then show ?case by simp
next
  case (Cons k ks)
  have knew: "k \<notin> set (dict_keys ld)" using Cons.prems by auto
  have ds: "dict_set k u ld = ld @ [(k, u)]" using knew by (rule dict_set_new)
  have disj: "set ks \<inter> set (dict_keys (ld @ [(k, u)])) = {}"
    using Cons.prems by (auto simp: dict_keys_def)
  have dks: "distinct ks" using Cons.prems by simp
  have "map (\<lambda>j. u + int j) [0..<Suc (length ks)] =
        u # map (\<lambda>j. u + 1 + int j) [0..<length ks]"
    by (simp add: map_upt_Suc del: upt_Suc)
  then show ?case using Cons.IH[OF dks disj, of "u + 1"] ds by (simp del: upt_Suc)
qed

lemma build_label_dict_internal:
  assumes "ld_arg = None \<or> ld_arg = Some []"
  shows "build_label_dict ld_arg (group_rows rows []) =
           (let ks = first_seen (map row_class rows)
            in if set ks = int ` {0..<length ks} then map (\<lambda>j. (int j, int j)) [0..<length ks]
               else zip ks (map int [0..<length ks]))"
proof -
  let ?ks = "first_seen (map row_class rows)"
  have z: "assign_labels ?ks 0 [] = zip ?ks (map (\<lambda>j. 0 + int j) [0..<length ?ks])"
    using assign_labels_zip[of ?ks "[]" 0] by (simp add: first_seen_distinct dict_keys_def)
  show ?thesis
    using assms z by (auto simp: build_label_dict_def group_rows_keys Let_def)
qed

section \<open>The constructor\<close>

lemma load_feature_vectors_rows:
  "load_feature_vectors file_h ims = Inr ims' \<Longrightarrow> map image_row ims' = map image_row ims"
proof (induction ims arbitrary: ims')
  case Nil
  then show ?case by simp
next
  case (Cons im ims)
  then show ?case
    by (auto simp: image_row_def split: option.splits sum.splits)
qed

lemma verify_feature_vectors_keeps:
  assumes "verify_feature_vectors_exist_and_load env ds skip = Inr (ok, out, ds')"
  shows "map image_row (images ds') = map image_row (images ds) \<and>
         label_dict ds' = label_dict ds \<and> num_classes ds' = num_classes ds"
  using assms load_feature_vectors_rows
  by (fastforce simp: verify_feature_vectors_exist_and_load_def Let_def
      split: option.splits if_splits sum.splits)

lemma run_verification_keeps:
  assumes "run_verification env va ds0 = Inr (ds, out)"
  shows "map image_row (images ds) = map image_row (images ds0) \<and>
         label_dict ds = label_dict ds0 \<and> num_classes ds = num_classes ds0"
proof (cases va)
  case True
  then obtain ok1 out1 ok2 out2 ds' where
    v: "verify_feature_vectors_exist_and_load env ds0 True = Inr (ok2, out2, ds')"
       "ds = ds'\<lparr>initialized_correctly := (ok1 \<and> ok2)\<rparr>"
    using assms by (auto simp: run_verification_def split: sum.splits prod.splits)
  from verify_feature_vectors_keeps[OF v(1)] v(2) show ?thesis by simp
next
  case False
  show ?thesis
  proof (cases "input_type ds0 = ''original''")
    case True
    then obtain ok where "ds = ds0\<lparr>initialized_correctly := ok\<rparr>"
      using assms False by (auto simp: run_verification_def split: sum.splits prod.splits)
    then show ?thesis by simp
  next
    case orig: False
    then obtain ok out' ds' where
      v: "verify_feature_vectors_exist_and_load env ds0 False = Inr (ok, out', ds')"
         "ds = ds'\<lparr>initialized_correctly := ok\<rparr>"
      using assms False by (auto simp: run_verification_def split: sum.splits prod.splits)
    from verify_feature_vectors_keeps[OF v(1)] v(2) show ?thesis by simp
  qed
qed

text \<open>What a completed construction tells about the steps of the constructor.\<close>

lemma init_Constructed:
  fixes ds :: "('a, 'img, 't) CollectionDataset"
  assumes "init rng g0 env name st it vt pl ld_arg va fd = Inr (Constructed ds, g', out)"
  shows "\<exists>i rows (imgs :: 'a CollectionImage list).
           list_index SET_TYPES st = Inr i \<and>
           sqlite3_fetchall env (images_query name (if \<not> va then Some i else None)) = Inr rows \<and>
           rows \<noteq> [] \<and>
           sample_images rng (seed rng 27) ld_arg fd st rows =
             Inr (imgs, label_dict ds, num_classes ds, g') \<and>
           map image_row (images ds) = map image_row imgs"
proof -
  obtain rt where rt: "sanitize_and_check_root_path env IMAGES_ROOT_PATH = Inr rt"
    using assms by (auto simp: init_def Let_def split: sum.splits)
  obtain i where i: "list_index SET_TYPES st = Inr i"
    using assms rt by (auto simp: init_def Let_def split: sum.splits if_splits)
  let ?q = "images_query name (if \<not> va then Some i else None)"
  obtain rows where q: "execute_database_query env ?q = Inr rows"
    using assms rt i
    by (cases "execute_database_query env ?q")
       (auto simp: init_def Let_def split: sum.splits if_splits)
  then have f: "sqlite3_fetchall env ?q = Inr rows"
    by (auto simp: execute_database_query_def split: if_splits)
  have ne: "rows \<noteq> []"
    using assms rt i q by (auto simp: init_def Let_def split: sum.splits if_splits)
  obtain imgs :: "'a CollectionImage list" and ld n g2 where
    s: "sample_images rng (seed rng 27) ld_arg fd st rows = Inr (imgs, ld, n, g2)"
    using assms rt i q ne
    by (cases "sample_images rng (seed rng 27) ld_arg fd st rows")
       (auto simp: init_def Let_def split: sum.splits if_splits)
  obtain ds0 out0 where
    v: "run_verification env va ds0 = Inr (ds, out0)"
       "images ds0 = imgs" "label_dict ds0 = ld" "num_classes ds0 = n" "g' = g2"
    using assms rt i q ne s
    by (auto simp: init_def Let_def split: sum.splits if_splits)
  from run_verification_keeps[OF v(1)] v(2-5) s i ne f show ?thesis by auto
qed

lemma sample_images_fields:
  assumes "sample_images rng g ld_arg fd st rows = Inr (imgs, ld, n, g2)"
  shows "ld = build_label_dict ld_arg (group_rows rows []) \<and>
         n = compute_num_classes (length (first_seen (map row_class rows)))
               (if fd then None else Some 500)"
  using assms
  by (auto simp: sample_images_def Let_def group_rows_keys split: sum.splits prod.splits)

text \<open>
  C4. When no label dictionary is passed (\<open>None\<close>, or an empty one, which the test
  \<open>if label_dict:\<close> treats alike), the constructed instance's dictionary is the identity
  on \<open>{0, ..., n-1}\<close> if the class ids of the rows the query returned are exactly that
  set, and otherwise maps the class ids, in the order of their first occurrence among
  the rows, to \<open>0, 1, 2, ...\<close>.
\<close>

theorem label_dict_policy:
  fixes ds :: "('a, 'img, 't) CollectionDataset"
  assumes "init rng g0 env name st it vt pl ld_arg va fd = Inr (Constructed ds, g', out)"
    and "ld_arg = None \<or> ld_arg = Some []"
    and "list_index SET_TYPES st = Inr i"
    and "sqlite3_fetchall env (images_query name (if \<not> va then Some i else None)) = Inr rows"
    and "ks = first_seen (map row_class rows)"
  shows "label_dict ds =
           (if set ks = int ` {0..<length ks} then map (\<lambda>j. (int j, int j)) [0..<length ks]
            else zip ks (map int [0..<length ks]))"
proof -
  from init_Constructed[OF assms(1)] assms(3,4) obtain imgs :: "'a CollectionImage list" where
    s: "sample_images rng (seed rng 27) ld_arg fd st rows =
        Inr (imgs, label_dict ds, num_classes ds, g')"
    by auto
  from sample_images_fields[OF s] build_label_dict_internal[OF assms(2)] assms(5)
  show ?thesis by (simp add: Let_def)
qed

lemma example_env_simps:
  "isdir (example_env t) p" "isfile (example_env t) p"
  "sqlite3_fetchall (example_env t) = sqlite3_for ''task'' t"
  "Image_open (example_env t) p = Some ()"
  by (simp_all add: example_env_def)

lemma str_nat_small:
  "str_nat 0 = ''0''" "str_nat 1 = ''1''" "str_nat (Suc 0) = ''1''" "str_nat 2 = ''2''"
  by (simp_all add: str_nat.simps[of 0] str_nat.simps[of 1] str_nat.simps[of "Suc 0"]
      str_nat.simps[of 2])

lemma images_query_sel:
  "images_query name None \<noteq> images_query name (Some 0)"
  "images_query name None \<noteq> images_query name (Some 1)"
  "images_query name None \<noteq> images_query name (Some 2)"
  "images_query name (Some 0) \<noteq> images_query name (Some 1)"
  "images_query name (Some 0) \<noteq> images_query name (Some 2)"
  "images_query name (Some 1) \<noteq> images_query name (Some 2)"
  by (simp_all add: images_query_def str_nat_small)

lemma sqlite3_for_answers:
  assumes "sel \<in> set [None, Some 0, Some 1, Some 2]"
  shows "sqlite3_for name table (images_query name sel) =
           (case sqlite_images table name sel of
              None \<Rightarrow> Inl OperationalError
            | Some rows \<Rightarrow> Inr rows)"
  using assms images_query_sel[of name] images_query_sel[of name, symmetric]
  by (auto simp: sqlite3_for_def)

text \<open>A name that SQLite reads as a string selects the rows of that task.\<close>

lemma sqlite_images_literal:
  assumes "literal_name x"
  shows "sqlite_images table x sel = Some (requested_rows x sel table)"
proof -
  have "double_quoted x = Some (\<lambda>r. x)"
    using assms by (auto simp: literal_name_def double_quoted_def Let_def)
  then show ?thesis by (simp add: sqlite_images_def requested_rows_def)
qed

lemma literal_name_task: "literal_name ''task''"
  by (simp add: literal_name_def ascii_lower_def integer_columns_def)

lemma example_env_rows:
  assumes "sel \<in> set [None, Some 0, Some 1, Some 2]"
  shows "sqlite3_fetchall (example_env t) (images_query ''task'' sel) =
           Inr (requested_rows ''task'' sel t)"
  using sqlite3_for_answers[OF assms, of "''task''" t]
  by (simp add: example_env_simps sqlite_images_literal[OF literal_name_task])

lemma list_index_SET_TYPES:
  "list_index SET_TYPES ''train'' = Inr 0"
  "list_index SET_TYPES ''validation'' = Inr 1"
  "list_index SET_TYPES ''test'' = Inr 2"
  by (simp_all add: SET_TYPES_def)

lemma sparse_ids_not_range: "{7, 3} \<noteq> int ` {0..<Suc (Suc 0)}"
proof -
  have "(7::int) \<notin> int ` {0..<Suc (Suc 0)}" by auto
  then show ?thesis by blast
qed

lemma example_init_sparse:
  "\<exists>ds g out.
     init example_rng 0
       (example_env [example_row ''a'' 7 0, example_row ''b'' 3 0, example_row ''c'' 7 0])
       ''task'' ''train'' ''original'' None (None :: (unit \<Rightarrow> unit) option) None False False =
     Inr (Constructed ds, g, out) \<and> label_dict ds = [(7, 0), (3, 1)] \<and>
     map image_row (images ds) =
       [(''c'', ''c.png'', 0, 0, 0), (''a'', ''a.png'', 0, 0, 0), (''b'', ''b.png'', 1, 0, 0)]"
  by (simp add: init_def sample_images_def run_verification_def verify_original_images_exist_def
      original_image_path_for_index_def py_index_def random_value_def choose_amount_def
      exceeds_def compute_num_classes_def build_label_dict_def group_row_def dict_keys_def
      requested_rows_def example_env_rows execute_database_query_def
      sanitize_and_check_root_path_def
      example_env_simps(1,2,4) example_row_def example_rng_def SET_TYPES_def INPUT_TYPES_def
      append_sample_def reached_def image_row_def sparse_ids_not_range Let_def)

theorem label_dict_policy_witness:
  "\<exists>(ds :: (int, unit, unit) CollectionDataset) g out.
     init example_rng 0
       (example_env [example_row ''a'' 7 0, example_row ''b'' 3 0, example_row ''c'' 7 0])
       ''task'' ''train'' ''original'' None None None False False =
     Inr (Constructed ds, g, out) \<and>
     label_dict ds = zip [7, 3] (map int [0..<2])"
proof -
  let ?t = "[example_row ''a'' 7 0, example_row ''b'' 3 0, example_row ''c'' 7 0]"
  obtain ds :: "(int, unit, unit) CollectionDataset" and g out where
    r: "init example_rng 0 (example_env ?t) ''task'' ''train'' ''original'' None None None
          False False = Inr (Constructed ds, g, out)"
    using example_init_sparse by blast
  have q: "sqlite3_fetchall (example_env ?t)
             (images_query ''task'' (if \<not> False then Some 0 else None)) =
           Inr (requested_rows ''task'' (Some 0) ?t)"
    using example_env_rows[of "Some 0" ?t] by simp
  have ks: "[7, 3] = first_seen (map row_class (requested_rows ''task'' (Some 0) ?t))"
    by (simp add: first_seen_def requested_rows_def example_row_def row_class_def)
  have "label_dict ds = zip [7, 3] (map int [0..<2])"
    using label_dict_policy [OF r _ list_index_SET_TYPES(1) q ks]
    by (simp add: upt_rec numeral_2_eq_2 sparse_ids_not_range)
  with r show ?thesis by blast
qed

text \<open>
  C9. The constructor seeds the generator with 27 before anything else, so its result
  (instance, label dictionary, images and their order, printed lines, and the
  generator state it leaves) does not depend on the generator state it finds: a second
  construction on the same catalog and arguments gives the same result as the first.
\<close>

theorem construction_is_deterministic:
  "init rng g0 env name st it vt pl ld_arg va fd = init rng g1 env name st it vt pl ld_arg va fd"
  by (simp add: init_def)

section \<open>Sampling\<close>

lemma fst_as_sample: "fst (as_sample xs) = map fst xs"
  by (simp add: as_sample_def)

lemma as_sample_Nil: "([], [], [], [], []) = as_sample []"
  by (simp add: as_sample_def)

lemma append_sample_as:
  "append_sample key v (as_sample xs) = as_sample (xs @ [(key, v)])"
  by (cases v) (simp add: append_sample_def as_sample_def)

lemma take_values_None:
  "take_values None key t vs (as_sample xs) = as_sample (xs @ map (Pair key) vs)"
  by (induction vs arbitrary: t xs) (simp_all add: reached_def append_sample_as)

lemma take_values_Some:
  "take_values (Some n) key t vs (as_sample xs) =
     as_sample (xs @ map (Pair key) (take (nat (max 1 (n - t))) vs))"
proof (induction vs arbitrary: t xs)
  case Nil
  then show ?case by simp
next
  case (Cons v vs)
  show ?case
  proof (cases "n \<le> t + 1")
    case True
    then have "nat (max 1 (n - t)) = Suc 0" by simp
    then show ?thesis using True by (simp add: reached_def append_sample_as)
  next
    case False
    then have "nat (max 1 (n - t)) = Suc (nat (max 1 (n - (t + 1))))" by simp
    then show ?thesis using False Cons.IH[of "t + 1" "xs @ [(key, v)]"]
      by (simp add: reached_def append_sample_as)
  qed
qed

text \<open>The number of entries the inner loop takes from a class of \<open>n\<close> entries.\<close>

lemma take_values_any:
  "\<exists>vs'. take_values q key 0 vs (as_sample xs) = as_sample (xs @ map (Pair key) vs') \<and>
         set vs' \<subseteq> set vs \<and>
         length vs' = (case q of None \<Rightarrow> length vs | Some n \<Rightarrow> min (length vs) (nat (max 1 n))) \<and>
         (q = None \<longrightarrow> vs' = vs)"
proof (cases q)
  case None
  then show ?thesis using take_values_None[of key 0 vs xs] by auto
next
  case (Some n)
  have "set (take (nat (max 1 n)) vs) \<subseteq> set vs" by (rule set_take_subset)
  then show ?thesis using Some take_values_Some[of n key 0 vs xs]
    by (intro exI[of _ "take (nat (max 1 n)) vs"]) (simp add: min.commute)
qed


text \<open>The images built from a sample: one per position, with the label looked up.\<close>

lemma build_images_from:
  assumes "build_images ld (as_sample ys) [m..<length ys] acc = Inr imgs"
  shows "\<exists>new. imgs = acc @ new \<and>
               map (\<lambda>im. (file_hash im, relative_path im, Some (class_id im), set_id im, problem im)) new =
               map (\<lambda>(k, h, p, s, pr). (h, p, map_of ld k, s, pr)) (drop m ys)"
  using assms
proof (induction "length ys - m" arbitrary: m acc)
  case 0
  then show ?case by simp
next
  case (Suc d)
  then have m: "m < length ys" by simp
  obtain k h p s pr where y: "ys ! m = (k, h, p, s, pr)" by (cases "ys ! m") auto
  have upt: "[m..<length ys] = m # [Suc m..<length ys]" using m by (simp add: upt_conv_Cons)
  have dr: "drop m ys = (k, h, p, s, pr) # drop (Suc m) ys"
    using m y by (simp add: Cons_nth_drop_Suc [symmetric])
  obtain l where l: "map_of ld k = Some l"
    using Suc.prems m y unfolding upt
    by (auto simp: as_sample_def split: option.splits)
  let ?im = "\<lparr> relative_path = p, class_id = l, set_id = s, problem = pr,
               file_hash = h, feature_vector = [] \<rparr>"
  have run: "build_images ld (as_sample ys) [Suc m..<length ys] (acc @ [?im]) = Inr imgs"
    using Suc.prems m y l unfolding upt
    by (simp add: as_sample_def py_index_def)
  have d: "d = length ys - Suc m" using Suc.hyps(2) by simp
  from Suc.hyps(1)[OF d run] obtain new where
    "imgs = (acc @ [?im]) @ new"
    "map (\<lambda>im. (file_hash im, relative_path im, Some (class_id im), set_id im, problem im)) new =
     map (\<lambda>(k, h, p, s, pr). (h, p, map_of ld k, s, pr)) (drop (Suc m) ys)"
    by blast
  then show ?case using dr l by (intro exI[of _ "?im # new"]) simp
qed

lemma mset_filter_split:
  "k \<notin> set ks \<Longrightarrow>
   mset (filter (\<lambda>r. f r = k) rows) + mset (filter (\<lambda>r. f r \<in> set ks) rows) =
   mset (filter (\<lambda>r. f r = k \<or> f r \<in> set ks) rows)"
  by (induction rows) auto

lemma mset_concat_classes:
  assumes "distinct ks"
  shows "mset (concat (map (\<lambda>k. map g (filter (\<lambda>r. f r = k) rows)) ks)) =
         mset (map g (filter (\<lambda>r. f r \<in> set ks) rows))"
  using assms
proof (induction ks)
  case Nil
  then show ?case by simp
next
  case (Cons k ks)
  then have k: "k \<notin> set ks" by simp
  have "mset (map g (filter (\<lambda>r. f r = k) rows)) + mset (map g (filter (\<lambda>r. f r \<in> set ks) rows)) =
        image_mset g (mset (filter (\<lambda>r. f r = k) rows) + mset (filter (\<lambda>r. f r \<in> set ks) rows))"
    by simp
  also have "\<dots> = image_mset g (mset (filter (\<lambda>r. f r = k \<or> f r \<in> set ks) rows))"
    by (simp only: mset_filter_split[OF k])
  finally show ?case using Cons by simp
qed

lemma grouped_entries:
  "mset (concat (map (\<lambda>(k, vs). map (Pair k) vs) (group_rows rows []))) =
   mset (map (\<lambda>r. (row_class r, row_entry r)) rows)"
proof -
  let ?ks = "first_seen (map row_class rows)"
  have inner: "\<And>k. map (\<lambda>r. (k, row_entry r)) (filter (\<lambda>r. row_class r = k) rows) =
                   map (\<lambda>r. (row_class r, row_entry r)) (filter (\<lambda>r. row_class r = k) rows)"
    by (rule map_cong) auto
  have "concat (map (\<lambda>(k, vs). map (Pair k) vs) (group_rows rows [])) =
        concat (map (\<lambda>k. map (\<lambda>r. (row_class r, row_entry r))
                         (filter (\<lambda>r. row_class r = k) rows)) ?ks)"
    by (simp add: group_rows_closed comp_def inner)
  moreover have "mset (concat (map (\<lambda>k. map (\<lambda>r. (row_class r, row_entry r))
                         (filter (\<lambda>r. row_class r = k) rows)) ?ks)) =
                 mset (map (\<lambda>r. (row_class r, row_entry r))
                         (filter (\<lambda>r. row_class r \<in> set ?ks) rows))"
    by (rule mset_concat_classes) (rule first_seen_distinct)
  moreover have "filter (\<lambda>r. row_class r \<in> set ?ks) rows = rows"
    by (simp add: first_seen_set)
  ultimately show ?thesis by simp
qed







section \<open>The per-class quota\<close>

lemma fl64_error_small:
  assumes "1 \<le> x" "x < 2 ^ 16"
  shows "\<bar>fl64 x - x\<bar> \<le> 1 / 2 ^ 37"
proof -
  define L where "L = ilog2 x"
  have xpos: "0 < x" using assms(1) by simp
  have Lb: "2 powi L \<le> x \<and> x < 2 powi (L + 1)" unfolding L_def using xpos by (rule ilog2_bounds)
  have L0: "0 \<le> L"
  proof (rule ccontr)
    assume "\<not> 0 \<le> L"
    then have "(2::rat) powi (L + 1) \<le> 2 powi 0" by (intro power_int_increasing) auto
    then show False using Lb assms(1) by simp
  qed
  have L15: "L \<le> 15"
  proof (rule ccontr)
    assume "\<not> L \<le> 15"
    then have "(2::rat) powi 16 \<le> 2 powi L" by (intro power_int_increasing) auto
    then show False using Lb assms(2) by simp
  qed
  define s where "s = nat (52 - L)"
  have e: "max (L - 52) (- 1074) = L - 52" using L0 by simp
  have "L - 52 \<le> 0" using L15 by simp
  then have "(2::rat) powi (L - 52) = 1 / 2 ^ nat (- (L - 52))" by (rule powi_neg_nat)
  moreover have "nat (- (L - 52)) = s" unfolding s_def by simp
  ultimately have pe: "(2::rat) powi (L - 52) = 1 / 2 ^ s" by simp
  define m where "m = rne (x * 2 ^ s)"
  have fx: "fl64 x = of_int m / 2 ^ s"
  proof -
    have "fl64 x = of_int (rne (x / 2 powi (L - 52))) * 2 powi (L - 52)"
      using fl64_pos[OF xpos] Lb e by metis
    then show ?thesis unfolding pe m_def by simp
  qed
  have near: "\<bar>of_int m - x * 2 ^ s\<bar> \<le> 1 / 2" unfolding m_def by (rule rne_near)
  have s37: "37 \<le> s" unfolding s_def using L15 by simp
  have P: "(0::rat) < 2 ^ s" by simp
  have "fl64 x - x = (of_int m - x * 2 ^ s) / 2 ^ s" unfolding fx by (simp add: field_simps)
  then have "\<bar>fl64 x - x\<bar> = \<bar>of_int m - x * 2 ^ s\<bar> / 2 ^ s" by (simp add: abs_divide)
  also have "\<dots> \<le> (1 / 2) / 2 ^ s" using near P by (intro divide_right_mono) auto
  also have "\<dots> \<le> 1 / 2 ^ s" by (simp add: field_simps)
  also have "\<dots> \<le> 1 / 2 ^ 37"
  proof -
    have "(2::rat) ^ 37 \<le> 2 ^ s" using s37 by (intro power_increasing) auto
    then show ?thesis by (intro divide_left_mono) auto
  qed
  finally show ?thesis .
qed

lemma true_div_quota:
  assumes "1 \<le> k" "k \<le> c" "c < 2 ^ 16"
  shows "\<exists>x. true_div c k = Inr x \<and> \<bar>x - of_int c / of_int k\<bar> \<le> 1 / 2 ^ 37"
proof -
  let ?x = "(of_int c :: rat) / of_int k"
  have kr: "(1::rat) \<le> of_int k" using assms(1) by simp
  have ck: "(of_int k :: rat) \<le> of_int c" using assms(2) by (simp only: of_int_le_iff)
  have x1: "1 \<le> ?x" using kr ck by (simp add: pos_le_divide_eq)
  have "(of_int c :: rat) < of_int (2 ^ 16)" using assms(3) by (simp only: of_int_less_iff)
  then have c16: "(of_int c :: rat) < 2 ^ 16" by simp
  have "?x \<le> of_int c"
  proof -
    have "(0::rat) \<le> of_int c" using kr ck by linarith
    then have "(of_int c :: rat) * 1 \<le> of_int c * of_int k" using kr by (intro mult_left_mono) auto
    then show ?thesis using kr by (simp add: pos_divide_le_eq)
  qed
  then have x16: "?x < 2 ^ 16" using c16 by linarith
  have err: "\<bar>fl64 ?x - ?x\<bar> \<le> 1 / 2 ^ 37" using x1 x16 by (rule fl64_error_small)
  have "(1::rat) / 2 ^ 37 \<le> 1" "(2::rat) ^ 16 + 1 \<le> 2 ^ 53" by simp_all
  then have "\<bar>fl64 ?x\<bar> \<le> 2 ^ 53" using err x16 x1 by linarith
  then have "\<not> float_overflow (fl64 ?x)" by (rule float_overflow_small)
  then have "true_div c k = Inr (fl64 ?x)" using assms(1) by (simp add: true_div_def Let_def)
  then show ?thesis using err by blast
qed

text \<open>
  For every class count from 1 to 500 and both caps, the quota is at least 1 and the
  quota times the class count exceeds the cap by at most 250.
\<close>

lemma quota_bound:
  assumes "1 \<le> k" "k \<le> 500" "c = 54000 \<or> c = 6000" "true_div c k = Inr x"
  shows "1 \<le> py_round x \<and> k * py_round x \<le> c + 250"
proof -
  have kc: "k \<le> c" "c < 2 ^ 16" "6000 \<le> c" using assms(2,3) by auto
  from true_div_quota[OF assms(1) kc(1,2)] assms(4)
  have err: "\<bar>x - of_int c / of_int k\<bar> \<le> 1 / 2 ^ 37" by auto
  let ?x0 = "(of_int c :: rat) / of_int k"
  have kr: "(1::rat) \<le> of_int k" "(of_int k :: rat) \<le> 500"
    using assms(1,2) by (simp_all add: of_int_le_numeral_iff [symmetric] del: of_int_le_numeral_iff)
  have "12 * k \<le> c" using kc(3) assms(2) by simp
  then have "(of_int (12 * k) :: rat) \<le> of_int c" by (simp only: of_int_le_iff)
  then have "12 * (of_int k :: rat) \<le> of_int c" by simp
  then have x12: "12 \<le> ?x0" using kr by (simp add: pos_le_divide_eq)
  have small: "(1::rat) / 2 ^ 37 \<le> 1 / 1000" by simp
  have "(of_int 1 :: rat) \<le> x" using err x12 small by linarith
  then have lo: "1 \<le> rne x" by (rule rne_ge)
  have near: "\<bar>of_int (rne x) - x\<bar> \<le> 1 / 2" by (rule rne_near)
  have up: "of_int (rne x) \<le> ?x0 + 1 / 2 + 1 / 1000"
    using near err small by linarith
  have "of_int k * (of_int (rne x) :: rat) \<le> of_int k * (?x0 + 1 / 2 + 1 / 1000)"
    using up kr by (intro mult_left_mono) auto
  also have "\<dots> = of_int c + of_int k * (1 / 2 + 1 / 1000)"
    using kr by (simp add: field_simps)
  also have "\<dots> \<le> of_int c + 500 * (1 / 2 + 1 / 1000)"
    using kr by (intro add_left_mono mult_right_mono) auto
  also have "\<dots> < of_int c + 251" by simp
  finally have "(of_int (k * rne x) :: rat) < of_int (c + 251)" by simp
  then have "k * rne x < c + 251" by (simp only: of_int_less_iff)
  then show ?thesis using lo by (simp add: py_round_def)
qed

lemma quota_6000_by_9:
  assumes "true_div 6000 9 = Inr x"
  shows "py_round x = 667"
proof -
  have "\<exists>y. true_div 6000 9 = Inr y \<and> \<bar>y - of_int 6000 / of_int 9\<bar> \<le> 1 / 2 ^ 37"
    by (rule true_div_quota) simp_all
  then have err: "\<bar>x - 6000 / 9\<bar> \<le> 1 / 2 ^ 37" using assms by auto
  have small: "(1::rat) / 2 ^ 37 \<le> 1 / 1000" by simp
  have "of_int 667 - 1 / 2 < x" using err small by linarith
  moreover have "x < of_int 667 + 1 / 2" using err small by linarith
  ultimately show ?thesis unfolding py_round_def by (rule rne_eq)
qed

section \<open>Bounded sampling\<close>

text \<open>
  A run of the outer loop that returns has added entries of at most
  \<open>num_classes - current_class_size\<close> classes, at most the quota (and at least one) from
  each, and never more than the classes hold.
\<close>

lemma loop_bound_aux:
  assumes lp: "lp \<Longrightarrow> (\<And>g xs. length (fst (shuffle rng g xs)) = length xs)"
    and "random_value_loop rng ld ncls cap q items (as_sample xs) ccs g = Inr (smp, g')"
    and "ccs < ncls"
  shows "\<exists>ys. smp = as_sample (xs @ ys) \<and>
              int (card (set (map fst ys))) \<le> ncls - ccs \<and>
              (\<forall>n. q = Some n \<longrightarrow> int (length ys) \<le> (ncls - ccs) * max 1 n) \<and>
              (lp \<longrightarrow> length ys \<le> sum_list (map (\<lambda>(k, vs). length vs) items))"
  using assms(2,3)
proof (induction items arbitrary: xs ccs g)
  case Nil
  have a: "smp = as_sample (xs @ [])" using Nil.prems(1) by simp
  have b: "int (card (set (map fst ([] :: (int \<times> entry) list)))) \<le> ncls - ccs"
    using Nil.prems(2) by simp
  have c: "\<forall>n. q = Some n \<longrightarrow> int (length ([] :: (int \<times> entry) list)) \<le> (ncls - ccs) * max 1 n"
  proof (intro allI impI)
    fix n :: int
    have "0 \<le> (ncls - ccs) * max 1 n" using Nil.prems(2) by (intro mult_nonneg_nonneg) auto
    then show "int (length ([] :: (int \<times> entry) list)) \<le> (ncls - ccs) * max 1 n" by simp
  qed
  have d: "lp \<longrightarrow> length ([] :: (int \<times> entry) list) \<le>
             sum_list (map (\<lambda>(k, vs). length vs) ([] :: (int \<times> entry list) list))"
    by simp
  from a b c d show ?case by blast
next
  case (Cons item rest)
  obtain key vals where item: "item = (key, vals)" by (cases item) auto
  have sumc: "sum_list (map (\<lambda>(k, vs). length vs) (item # rest)) =
              length vals + sum_list (map (\<lambda>(k, vs). length vs) rest)"
    unfolding item by simp
  show ?case
  proof (cases "key \<in> set (take (nat ncls) (dict_keys ld))")
    case False
    have run: "random_value_loop rng ld ncls cap q rest (as_sample xs) ccs g = Inr (smp, g')"
    proof (cases "Some ncls \<noteq> cap")
      case True
      then show ?thesis using Cons.prems(1) False unfolding item by simp
    next
      case F: False
      then show ?thesis using Cons.prems(1) False unfolding item by simp
    qed
    from Cons.IH[OF run Cons.prems(2)] obtain ys where
      ys: "smp = as_sample (xs @ ys)"
          "int (card (set (map fst ys))) \<le> ncls - ccs"
          "\<forall>n. q = Some n \<longrightarrow> int (length ys) \<le> (ncls - ccs) * max 1 n"
          "lp \<longrightarrow> length ys \<le> sum_list (map (\<lambda>(k, vs). length vs) rest)"
      by blast
    have "lp \<longrightarrow> length ys \<le> sum_list (map (\<lambda>(k, vs). length vs) (item # rest))"
      using ys(4) unfolding sumc by linarith
    with ys(1,2,3) show ?thesis by blast
  next
    case True
    obtain vals' g1 where sh: "shuffle rng g vals = (vals', g1)"
      by (cases "shuffle rng g vals") auto
    from take_values_any[of q key vals' xs] obtain vs' where
      tv: "take_values q key 0 vals' (as_sample xs) = as_sample (xs @ map (Pair key) vs')"
          "length vs' = (case q of None \<Rightarrow> length vals' | Some n \<Rightarrow> min (length vals') (nat (max 1 n)))"
      by blast
    define ys1 where "ys1 = map (Pair key) vs'"
    have tv1: "take_values q key 0 vals' (as_sample xs) = as_sample (xs @ ys1)"
      using tv(1) unfolding ys1_def .
    have len1: "length ys1 = length vs'" unfolding ys1_def by simp
    have k1: "set (map fst ys1) \<subseteq> {key}" unfolding ys1_def by auto
    have "card (set (map fst ys1)) \<le> card {key}" using k1 by (intro card_mono) auto
    then have c1: "card (set (map fst ys1)) \<le> 1" by simp
    have q1: "\<forall>n. q = Some n \<longrightarrow> int (length ys1) \<le> max 1 n"
    proof (intro allI impI)
      fix n assume "q = Some n"
      then have "length vs' \<le> nat (max 1 n)" using tv(2) by simp
      then show "int (length ys1) \<le> max 1 n" unfolding len1 by linarith
    qed
    have l1: "lp \<longrightarrow> length ys1 \<le> length vals"
    proof
      assume lp
      then have "length (fst (shuffle rng g vals)) = length vals" by (rule lp)
      then have "length vals' = length vals" using sh by simp
      moreover have "length vs' \<le> length vals'" using tv(2) by (cases q) simp_all
      ultimately show "length ys1 \<le> length vals" unfolding len1 by linarith
    qed
    have step: "random_value_loop rng ld ncls cap q (item # rest) (as_sample xs) ccs g =
                (if ncls \<le> ccs + 1 then Inr (as_sample (xs @ ys1), g1)
                 else random_value_loop rng ld ncls cap q rest (as_sample (xs @ ys1)) (ccs + 1) g1)"
      unfolding item using True sh tv1 by (simp add: Let_def)
    show ?thesis
    proof (cases "ncls \<le> ccs + 1")
      case last: True
      have smp: "smp = as_sample (xs @ ys1)"
        using Cons.prems(1) last unfolding step by simp
      have d: "1 \<le> ncls - ccs" using Cons.prems(2) by simp
      have qb: "\<forall>n. q = Some n \<longrightarrow> int (length ys1) \<le> (ncls - ccs) * max 1 n"
      proof (intro allI impI)
        fix n assume qn: "q = Some n"
        define M where "M = max 1 n"
        have M0: "0 \<le> M" unfolding M_def by simp
        have "int (length ys1) \<le> M" using q1 qn unfolding M_def by blast
        also have "M = 1 * M" by simp
        also have "\<dots> \<le> (ncls - ccs) * M" using d M0 by (rule mult_right_mono)
        finally show "int (length ys1) \<le> (ncls - ccs) * max 1 n" unfolding M_def .
      qed
      have cb: "int (card (set (map fst ys1))) \<le> ncls - ccs" using c1 d by linarith
      have lb: "lp \<longrightarrow> length ys1 \<le> sum_list (map (\<lambda>(k, vs). length vs) (item # rest))"
        using l1 unfolding sumc by linarith
      from smp cb qb lb show ?thesis by blast
    next
      case more: False
      have run: "random_value_loop rng ld ncls cap q rest (as_sample (xs @ ys1)) (ccs + 1) g1 =
                   Inr (smp, g')"
        using Cons.prems(1) more unfolding step by simp
      have lt: "ccs + 1 < ncls" using more by simp
      from Cons.IH[OF run lt] obtain ys2 where
        ys2: "smp = as_sample ((xs @ ys1) @ ys2)"
             "int (card (set (map fst ys2))) \<le> ncls - (ccs + 1)"
             "\<forall>n. q = Some n \<longrightarrow> int (length ys2) \<le> (ncls - (ccs + 1)) * max 1 n"
             "lp \<longrightarrow> length ys2 \<le> sum_list (map (\<lambda>(k, vs). length vs) rest)"
        by blast
      define ys where "ys = ys1 @ ys2"
      have smp: "smp = as_sample (xs @ ys)" using ys2(1) unfolding ys_def by simp
      have leny: "length ys = length ys1 + length ys2" unfolding ys_def by simp
      have "set (map fst ys) = set (map fst ys1) \<union> set (map fst ys2)" unfolding ys_def by simp
      then have "card (set (map fst ys)) \<le> card (set (map fst ys1)) + card (set (map fst ys2))"
        by (simp only: card_Un_le)
      then have cb: "int (card (set (map fst ys))) \<le> ncls - ccs" using c1 ys2(2) by linarith
      have qb: "\<forall>n. q = Some n \<longrightarrow> int (length ys) \<le> (ncls - ccs) * max 1 n"
      proof (intro allI impI)
        fix n assume qn: "q = Some n"
        define M where "M = max 1 n"
        have a: "int (length ys1) \<le> M" using q1 qn unfolding M_def by blast
        have b: "int (length ys2) \<le> (ncls - (ccs + 1)) * M" using ys2(3) qn unfolding M_def by blast
        have "(ncls - ccs) * M = M + (ncls - (ccs + 1)) * M" by (simp add: algebra_simps)
        then have "int (length ys) \<le> (ncls - ccs) * M" using a b leny by linarith
        then show "int (length ys) \<le> (ncls - ccs) * max 1 n" unfolding M_def .
      qed
      have lb: "lp \<longrightarrow> length ys \<le> sum_list (map (\<lambda>(k, vs). length vs) (item # rest))"
        using l1 ys2(4) leny unfolding sumc by linarith
      from smp cb qb lb show ?thesis by blast
    qed
  qed
qed

lemma loop_bound:
  assumes "random_value_loop rng ld ncls cap q items (as_sample xs) ccs g = Inr (smp, g')"
    and "ccs < ncls"
  shows "\<exists>ys. smp = as_sample (xs @ ys) \<and>
              int (card (set (map fst ys))) \<le> ncls - ccs \<and>
              (\<forall>n. q = Some n \<longrightarrow> int (length ys) \<le> (ncls - ccs) * max 1 n) \<and>
              ((\<forall>g xs. length (fst (shuffle rng g xs)) = length xs) \<longrightarrow>
                 length ys \<le> sum_list (map (\<lambda>(k, vs). length vs) items))"
  by (rule loop_bound_aux[OF _ assms]) blast

lemma grouped_sizes:
  "sum_list (map (\<lambda>(k, vs). length vs) (group_rows rows [])) = length rows"
proof -
  have "length (concat (map (\<lambda>(k, vs). map (Pair k) vs) (group_rows rows []))) =
        length (map (\<lambda>r. (row_class r, row_entry r)) rows)"
    using grouped_entries[of rows] by (rule mset_eq_length)
  moreover have "length (concat (map (\<lambda>(k, vs). map (Pair k) vs) (group_rows rows []))) =
                 sum_list (map (\<lambda>(k, vs). length vs) (group_rows rows []))"
    by (simp add: length_concat comp_def case_prod_unfold)
  ultimately show ?thesis by simp
qed

lemma group_rows_nonempty: "rows \<noteq> [] \<Longrightarrow> group_rows rows [] \<noteq> []"
proof -
  assume "rows \<noteq> []"
  then have "set (first_seen (map row_class rows)) \<noteq> {}" by (simp add: first_seen_set)
  then show ?thesis by (auto simp: group_rows_closed)
qed

lemma images_of_sample:
  fixes imgs :: "'a CollectionImage list"
  assumes "build_images ld (as_sample ys) [0..<length ys] [] = Inr imgs"
  shows "length imgs = length ys \<and> card (class_id ` set imgs) \<le> card (set (map fst ys))"
proof -
  from build_images_from[OF assms]
  have pi: "map (\<lambda>im. (file_hash im, relative_path im, Some (class_id im), set_id im, problem im)) imgs =
            map (\<lambda>(k, h, p, s, pr). (h, p, map_of ld k, s, pr)) ys"
    by simp
  then have len: "length imgs = length ys" by (rule map_eq_imp_length_eq)
  have "map (fst \<circ> snd \<circ> snd)
          (map (\<lambda>im. (file_hash im, relative_path im, Some (class_id im), set_id im, problem im)) imgs) =
        map (fst \<circ> snd \<circ> snd) (map (\<lambda>(k, h, p, s, pr). (h, p, map_of ld k, s, pr)) ys)"
    using pi by simp
  then have "map (\<lambda>im. Some (class_id im)) imgs = map (\<lambda>y. map_of ld (fst y)) ys"
    by (simp add: comp_def case_prod_unfold)
  then have "set (map (\<lambda>im. Some (class_id im)) imgs) = set (map (\<lambda>y. map_of ld (fst y)) ys)"
    by simp
  then have "Some ` class_id ` set imgs = map_of ld ` set (map fst ys)"
    by (simp add: image_image)
  moreover have "card (Some ` class_id ` set imgs) = card (class_id ` set imgs)"
    by (intro card_image) simp
  moreover have "card (map_of ld ` set (map fst ys)) \<le> card (set (map fst ys))"
    by (intro card_image_le) simp
  ultimately show ?thesis using len by simp
qed

lemma sample_images_bounded:
  fixes imgs :: "'a CollectionImage list"
  assumes "sample_images rng g ld_arg False st rows = Inr (imgs, ld, n, g2)"
  shows "n = compute_num_classes (length (group_rows rows [])) (Some 500) \<and>
         (\<exists>smp. random_value rng ld n (Some 500) (group_rows rows [])
                   (choose_amount st (length rows) (Some 54000) (Some 6000)) g = Inr (smp, g2) \<and>
                 build_images ld smp [0..<length (fst smp)] [] = Inr imgs)"
  using assms
  by (auto simp: sample_images_def Let_def dict_keys_def split: sum.splits prod.splits)

text \<open>
  With a quota every class gives at most the quota, and at least room for one entry;
  a label dictionary built by the constructor maps distinct classes to distinct labels.
\<close>

lemma as_sample_inj: "as_sample a = as_sample b \<Longrightarrow> a = b"
proof (induction a arbitrary: b)
  case Nil
  then show ?case by (simp add: as_sample_def)
next
  case (Cons x a)
  then obtain y b' where b: "b = y # b'" by (cases b) (auto simp: as_sample_def)
  have "as_sample a = as_sample b'" using Cons.prems unfolding b by (simp add: as_sample_def)
  then have "a = b'" by (rule Cons.IH)
  moreover have "x = y"
    using Cons.prems unfolding b by (cases x; cases y) (simp add: as_sample_def)
  ultimately show ?case unfolding b by simp
qed

lemma loop_per_class:
  assumes "random_value_loop rng ld ncls cap (Some n) items (as_sample xs) ccs g = Inr (smp, g')"
    and "distinct (map fst items)"
  shows "\<exists>ys. smp = as_sample (xs @ ys) \<and> set (map fst ys) \<subseteq> set (map fst items) \<and>
              (\<forall>k. int (length (filter (\<lambda>y. fst y = k) ys)) \<le> max 1 n)"
  using assms
proof (induction items arbitrary: xs ccs g)
  case Nil
  have "smp = as_sample (xs @ [])" using Nil.prems(1) by simp
  moreover have "\<forall>k. int (length (filter (\<lambda>y. fst y = k) ([] :: (int \<times> entry) list))) \<le> max 1 n"
    by simp
  ultimately show ?case by fastforce
next
  case (Cons item rest)
  obtain key vals where item: "item = (key, vals)" by (cases item) auto
  have dr: "distinct (map fst rest)" and kr: "key \<notin> set (map fst rest)"
    using Cons.prems(2) unfolding item by simp_all
  show ?case
  proof (cases "key \<in> set (take (nat ncls) (dict_keys ld))")
    case False
    have run: "random_value_loop rng ld ncls cap (Some n) rest (as_sample xs) ccs g = Inr (smp, g')"
    proof (cases "Some ncls \<noteq> cap")
      case True
      then show ?thesis using Cons.prems(1) False unfolding item by simp
    next
      case F: False
      then show ?thesis using Cons.prems(1) False unfolding item by simp
    qed
    from Cons.IH[OF run dr] obtain ys where
      ys: "smp = as_sample (xs @ ys)" "set (map fst ys) \<subseteq> set (map fst rest)"
          "\<forall>k. int (length (filter (\<lambda>y. fst y = k) ys)) \<le> max 1 n"
      by blast
    have "set (map fst ys) \<subseteq> set (map fst (item # rest))" using ys(2) by auto
    with ys(1,3) show ?thesis by blast
  next
    case True
    obtain vals' g1 where sh: "shuffle rng g vals = (vals', g1)"
      by (cases "shuffle rng g vals") auto
    from take_values_any[of "Some n" key vals' xs] obtain vs' where
      tv: "take_values (Some n) key 0 vals' (as_sample xs) = as_sample (xs @ map (Pair key) vs')"
          "length vs' = min (length vals') (nat (max 1 n))"
      by auto
    define ys1 where "ys1 = map (Pair key) vs'"
    have tv1: "take_values (Some n) key 0 vals' (as_sample xs) = as_sample (xs @ ys1)"
      using tv(1) unfolding ys1_def .
    have f1: "filter (\<lambda>y. fst y = k) ys1 = (if k = key then ys1 else [])" for k
      unfolding ys1_def by (induction vs') auto
    have len1: "int (length ys1) \<le> max 1 n"
      using tv(2) unfolding ys1_def by simp
    have k1: "set (map fst ys1) \<subseteq> {key}" unfolding ys1_def by auto
    have step: "random_value_loop rng ld ncls cap (Some n) (item # rest) (as_sample xs) ccs g =
                (if ncls \<le> ccs + 1 then Inr (as_sample (xs @ ys1), g1)
                 else random_value_loop rng ld ncls cap (Some n) rest (as_sample (xs @ ys1))
                        (ccs + 1) g1)"
      unfolding item using True sh tv1 by (simp add: Let_def)
    show ?thesis
    proof (cases "ncls \<le> ccs + 1")
      case last: True
      have smp: "smp = as_sample (xs @ ys1)"
        using Cons.prems(1) last unfolding step by simp
      have a: "set (map fst ys1) \<subseteq> set (map fst (item # rest))"
        using k1 unfolding item by auto
      have b: "\<forall>k. int (length (filter (\<lambda>y. fst y = k) ys1)) \<le> max 1 n"
        using len1 by (simp add: f1)
      from smp a b show ?thesis by blast
    next
      case more: False
      have run: "random_value_loop rng ld ncls cap (Some n) rest (as_sample (xs @ ys1))
                   (ccs + 1) g1 = Inr (smp, g')"
        using Cons.prems(1) more unfolding step by simp
      from Cons.IH[OF run dr] obtain ys2 where
        ys2: "smp = as_sample ((xs @ ys1) @ ys2)" "set (map fst ys2) \<subseteq> set (map fst rest)"
             "\<forall>k. int (length (filter (\<lambda>y. fst y = k) ys2)) \<le> max 1 n"
        by blast
      define ys where "ys = ys1 @ ys2"
      have smp: "smp = as_sample (xs @ ys)" using ys2(1) unfolding ys_def by simp
      have a: "set (map fst ys) \<subseteq> set (map fst (item # rest))"
        using k1 ys2(2) unfolding ys_def item by auto
      have f2: "filter (\<lambda>y. fst y = key) ys2 = []"
        using ys2(2) kr by (auto simp: filter_empty_conv)
      have b: "\<forall>k. int (length (filter (\<lambda>y. fst y = k) ys)) \<le> max 1 n"
      proof
        fix k
        show "int (length (filter (\<lambda>y. fst y = k) ys)) \<le> max 1 n"
        proof (cases "k = key")
          case True
          then show ?thesis using len1 f2 unfolding ys_def by (simp add: f1)
        next
          case False
          then show ?thesis using ys2(3) unfolding ys_def by (simp add: f1)
        qed
      qed
      from smp a b show ?thesis by blast
    qed
  qed
qed


lemma internal_label_dict_inj:
  assumes "ld_arg = None \<or> ld_arg = Some []"
  shows "inj_on (map_of (build_label_dict ld_arg (group_rows rows [])))
           (set (first_seen (map row_class rows)))"
proof -
  let ?ks = "first_seen (map row_class rows)"
  let ?ld = "build_label_dict ld_arg (group_rows rows [])"
  have d: "distinct ?ks" by (rule first_seen_distinct)
  show ?thesis
  proof (cases "set ?ks = int ` {0..<length ?ks}")
    case True
    then have "?ld = map (\<lambda>j. (int j, int j)) [0..<length ?ks]"
      using build_label_dict_internal[OF assms, of rows] by (simp add: Let_def)
    also have "\<dots> = map (\<lambda>k. (k, k)) (map int [0..<length ?ks])" by (simp add: comp_def)
    finally have ld: "?ld = map (\<lambda>k. (k, k)) (map int [0..<length ?ks])" .
    have "map_of ?ld c = Some c" if "c \<in> set ?ks" for c
      using that True unfolding ld map_of_keyed by simp
    then show ?thesis by (intro inj_onI) (metis option.inject)
  next
    case False
    then have ld: "?ld = zip ?ks (map int [0..<length ?ks])"
      using build_label_dict_internal[OF assms, of rows] by (simp add: Let_def)
    have nth: "map_of ?ld (?ks ! i) = Some (int i)" if "i < length ?ks" for i
    proof -
      have "map_of (zip ?ks (map int [0..<length ?ks])) (?ks ! i) =
              Some (map int [0..<length ?ks] ! i)"
        using d that by (intro map_of_zip_nth) simp_all
      then show ?thesis using that unfolding ld by simp
    qed
    show ?thesis
    proof (intro inj_onI)
      fix a b
      assume a: "a \<in> set ?ks" and b: "b \<in> set ?ks" and e: "map_of ?ld a = map_of ?ld b"
      from a obtain i where i: "i < length ?ks" "a = ?ks ! i" by (auto simp: in_set_conv_nth)
      from b obtain j where j: "j < length ?ks" "b = ?ks ! j" by (auto simp: in_set_conv_nth)
      have "Some (int i) = Some (int j)" using e nth[OF i(1)] nth[OF j(1)] i(2) j(2) by simp
      then show "a = b" using i(2) j(2) by simp
    qed
  qed
qed

lemma per_label_bound:
  fixes imgs :: "'a CollectionImage list" and ys :: "(int \<times> entry) list"
  assumes pi: "map (\<lambda>im. (file_hash im, relative_path im, Some (class_id im), set_id im, problem im))
                 imgs =
               map (\<lambda>(k, h, p, s, pr). (h, p, map_of ld k, s, pr)) ys"
    and inj: "inj_on (map_of ld) (set (map fst ys))"
    and per: "\<forall>k. int (length (filter (\<lambda>y. fst y = k) ys)) \<le> m"
    and m0: "0 \<le> m"
  shows "int (length (filter (\<lambda>im. class_id im = c) imgs)) \<le> m"
proof -
  have "map (fst \<circ> snd \<circ> snd)
          (map (\<lambda>im. (file_hash im, relative_path im, Some (class_id im), set_id im, problem im)) imgs) =
        map (fst \<circ> snd \<circ> snd) (map (\<lambda>(k, h, p, s, pr). (h, p, map_of ld k, s, pr)) ys)"
    using pi by simp
  then have e: "map (\<lambda>im. Some (class_id im)) imgs = map (\<lambda>y. map_of ld (fst y)) ys"
    by (simp add: comp_def case_prod_unfold)
  have "length (filter (\<lambda>im. class_id im = c) imgs) =
        length (filter (\<lambda>l. l = Some c) (map (\<lambda>im. Some (class_id im)) imgs))"
    by (simp add: filter_map comp_def)
  also have "\<dots> = length (filter (\<lambda>l. l = Some c) (map (\<lambda>y. map_of ld (fst y)) ys))"
    unfolding e ..
  also have "\<dots> = length (filter (\<lambda>y. map_of ld (fst y) = Some c) ys)"
    by (simp add: filter_map comp_def)
  finally have len: "length (filter (\<lambda>im. class_id im = c) imgs) =
                     length (filter (\<lambda>y. map_of ld (fst y) = Some c) ys)" .
  show ?thesis
  proof (cases "\<exists>y \<in> set ys. map_of ld (fst y) = Some c")
    case False
    then have "filter (\<lambda>y. map_of ld (fst y) = Some c) ys = []"
      by (auto simp: filter_empty_conv)
    then show ?thesis using len m0 by simp
  next
    case True
    then obtain y0 where y0: "y0 \<in> set ys" "map_of ld (fst y0) = Some c" by blast
    have "filter (\<lambda>y. map_of ld (fst y) = Some c) ys = filter (\<lambda>y. fst y = fst y0) ys"
    proof (rule filter_cong[OF refl])
      fix y assume y: "y \<in> set ys"
      have m: "fst y \<in> set (map fst ys)" "fst y0 \<in> set (map fst ys)" using y y0(1) by auto
      show "(map_of ld (fst y) = Some c) = (fst y = fst y0)"
      proof
        assume "map_of ld (fst y) = Some c"
        then have "map_of ld (fst y) = map_of ld (fst y0)" using y0(2) by simp
        then show "fst y = fst y0" by (rule inj_onD[OF inj _ m])
      next
        assume "fst y = fst y0"
        then show "map_of ld (fst y) = Some c" using y0(2) by simp
      qed
    qed
    then show ?thesis using len per by simp
  qed
qed

text \<open>With a \<open>shuffle\<close> that permutes, no entry of a class is taken twice.\<close>

lemma take_values_submset:
  "\<exists>vs'. take_values q key 0 vs (as_sample xs) = as_sample (xs @ map (Pair key) vs') \<and>
         mset vs' \<subseteq># mset vs"
proof (cases q)
  case None
  then show ?thesis using take_values_None[of key 0 vs xs] by auto
next
  case (Some n)
  let ?m = "nat (max 1 (n - 0))"
  have "mset vs = mset (take ?m vs) + mset (drop ?m vs)"
    by (metis append_take_drop_id mset_append)
  then have "mset (take ?m vs) \<subseteq># mset vs" by simp
  then show ?thesis using Some take_values_Some[of n key 0 vs xs] by blast
qed

lemma loop_draws_entries:
  assumes perm: "\<And>g xs. mset (fst (shuffle rng g xs)) = mset xs"
    and "random_value_loop rng ld ncls cap q items (as_sample xs) ccs g = Inr (smp, g')"
  shows "\<exists>ys. smp = as_sample (xs @ ys) \<and>
              mset ys \<subseteq># mset (concat (map (\<lambda>(k, vs). map (Pair k) vs) items))"
  using assms(2)
proof (induction items arbitrary: xs ccs g)
  case Nil
  then have "smp = as_sample (xs @ [])" by simp
  then show ?case by fastforce
next
  case (Cons item rest)
  obtain key vals where item: "item = (key, vals)" by (cases item) auto
  let ?all = "\<lambda>its :: (int \<times> entry list) list. concat (map (\<lambda>(k, vs). map (Pair k) vs) its)"
  have allc: "mset (?all (item # rest)) = mset (map (Pair key) vals) + mset (?all rest)"
    unfolding item by simp
  show ?case
  proof (cases "key \<in> set (take (nat ncls) (dict_keys ld))")
    case False
    have run: "random_value_loop rng ld ncls cap q rest (as_sample xs) ccs g = Inr (smp, g')"
    proof (cases "Some ncls \<noteq> cap")
      case True
      then show ?thesis using Cons.prems(1) False unfolding item by simp
    next
      case F: False
      then show ?thesis using Cons.prems(1) False unfolding item by simp
    qed
    from Cons.IH[OF run] obtain ys where
      ys: "smp = as_sample (xs @ ys)" "mset ys \<subseteq># mset (?all rest)"
      by blast
    have "mset ys \<subseteq># mset (?all (item # rest))"
      using ys(2) unfolding allc by (simp add: subset_mset.add_increasing)
    with ys(1) show ?thesis by blast
  next
    case True
    obtain vals' g1 where sh: "shuffle rng g vals = (vals', g1)"
      by (cases "shuffle rng g vals") auto
    have pv: "mset vals' = mset vals" using perm[of g vals] sh by simp
    from take_values_submset[of q key vals' xs] obtain vs' where
      tv: "take_values q key 0 vals' (as_sample xs) = as_sample (xs @ map (Pair key) vs')"
          "mset vs' \<subseteq># mset vals'"
      by blast
    define ys1 where "ys1 = map (Pair key) vs'"
    have tv1: "take_values q key 0 vals' (as_sample xs) = as_sample (xs @ ys1)"
      using tv(1) unfolding ys1_def .
    have s1: "mset ys1 \<subseteq># mset (map (Pair key) vals)"
      using tv(2) unfolding ys1_def pv by (simp add: image_mset_subseteq_mono)
    have step: "random_value_loop rng ld ncls cap q (item # rest) (as_sample xs) ccs g =
                (if ncls \<le> ccs + 1 then Inr (as_sample (xs @ ys1), g1)
                 else random_value_loop rng ld ncls cap q rest (as_sample (xs @ ys1)) (ccs + 1) g1)"
      unfolding item using True sh tv1 by (simp add: Let_def)
    show ?thesis
    proof (cases "ncls \<le> ccs + 1")
      case last: True
      have smp: "smp = as_sample (xs @ ys1)"
        using Cons.prems(1) last unfolding step by simp
      have "mset ys1 \<subseteq># mset (?all (item # rest))"
        using s1 unfolding allc by (simp add: subset_mset.add_increasing2)
      with smp show ?thesis by blast
    next
      case more: False
      have run: "random_value_loop rng ld ncls cap q rest (as_sample (xs @ ys1)) (ccs + 1) g1 =
                   Inr (smp, g')"
        using Cons.prems(1) more unfolding step by simp
      from Cons.IH[OF run] obtain ys2 where
        ys2: "smp = as_sample ((xs @ ys1) @ ys2)" "mset ys2 \<subseteq># mset (?all rest)"
        by blast
      have smp: "smp = as_sample (xs @ (ys1 @ ys2))" using ys2(1) by simp
      have "mset (ys1 @ ys2) \<subseteq># mset (?all (item # rest))"
        using s1 ys2(2) unfolding allc by (simp add: subset_mset.add_mono)
      with smp show ?thesis by blast
    qed
  qed
qed

lemma list_index_member: "list_index xs x = Inr n \<Longrightarrow> x \<in> set xs"
  by (induction xs arbitrary: n) (auto split: if_splits sum.splits)

text \<open>
  C1, as the code has it. In bounded mode a completed construction keeps at most 500
  classes. When the rows the query returned do not exceed the cap of the split, no
  more items than rows are kept. When they do, the quota is
  \<open>round(cap / num_classes)\<close>: the images are built from a list \<open>ys\<close> of pairs (class id
  of a returned row, rest of that row), no row taken twice, that has at most
  \<open>num_classes\<close> class ids and at most the quota of pairs for each class id; with the
  label dictionary the constructor builds itself, no label is carried by more images
  than the quota. So the total is at most
  \<open>num_classes * round(cap / num_classes)\<close>, which is at most the cap plus 250 and can
  exceed the cap.
\<close>

theorem bounded_sampling_limits:
  fixes ds :: "('a, 'img, 't) CollectionDataset"
  assumes perm: "\<And>g xs. mset (fst (shuffle rng g xs)) = mset xs"
    and "init rng g0 env name st it vt pl ld_arg va False = Inr (Constructed ds, g', out)"
    and "list_index SET_TYPES st = Inr i"
    and "sqlite3_fetchall env (images_query name (if \<not> va then Some i else None)) = Inr rows"
    and "total_cap = (if st = ''train'' then 54000 else 6000)"
  shows "1 \<le> num_classes ds \<and> num_classes ds \<le> 500 \<and>
         card (class_id ` set (images ds)) \<le> 500 \<and>
         (int (length rows) \<le> total_cap \<longrightarrow> length (images ds) \<le> length rows) \<and>
         (total_cap < int (length rows) \<longrightarrow>
            (\<exists>x ys. true_div total_cap (num_classes ds) = Inr x \<and>
                 map (\<lambda>im. (file_hash im, relative_path im, Some (class_id im), set_id im,
                            problem im))
                   (images ds) =
                 map (\<lambda>(k, h, p, s, pr). (h, p, map_of (label_dict ds) k, s, pr)) ys \<and>
                 mset ys \<subseteq># mset (map (\<lambda>r. (row_class r, row_entry r)) rows) \<and>
                 int (card (fst ` set ys)) \<le> num_classes ds \<and>
                 (\<forall>k. int (length (filter (\<lambda>y. fst y = k) ys)) \<le> py_round x) \<and>
                 (ld_arg = None \<or> ld_arg = Some [] \<longrightarrow>
                    (\<forall>c. int (length (filter (\<lambda>im. class_id im = c) (images ds)))
                           \<le> py_round x)) \<and>
                 int (length (images ds)) \<le> num_classes ds * py_round x \<and>
                 num_classes ds * py_round x \<le> total_cap + 250))"
proof -
  let ?proj = "\<lambda>im :: 'a CollectionImage.
                 (file_hash im, relative_path im, Some (class_id im), set_id im, problem im)"
  let ?F = "\<lambda>(k, h, p, s, pr). (h, p, map_of (label_dict ds) k, s, pr)"
  have len: "length (fst (shuffle rng g xs)) = length xs" for g xs
    using perm[of g xs] by (rule mset_eq_length)
  from init_Constructed[OF assms(2)] assms(3,4) obtain imgs :: "'a CollectionImage list" where
    s: "sample_images rng (seed rng 27) ld_arg False st rows =
          Inr (imgs, label_dict ds, num_classes ds, g')"
    and eq: "map image_row (images ds) = map image_row imgs"
    and ne: "rows \<noteq> []"
    by auto
  let ?d = "group_rows rows []"
  let ?n = "num_classes ds"
  let ?am = "choose_amount st (length rows) (Some 54000) (Some 6000)"
  from sample_images_bounded[OF s] obtain smp where
    n: "?n = compute_num_classes (length ?d) (Some 500)"
    and rv: "random_value rng (label_dict ds) ?n (Some 500) ?d ?am (seed rng 27) = Inr (smp, g')"
    and bi: "build_images (label_dict ds) smp [0..<length (fst smp)] [] = Inr imgs"
    by blast
  have "?d \<noteq> []" using ne by (rule group_rows_nonempty)
  then have "1 \<le> length ?d" by (cases ?d) auto
  then have n1: "1 \<le> ?n" and n500: "?n \<le> 500"
    unfolding n by (auto simp: compute_num_classes_def)
  have "st \<in> set SET_TYPES" using assms(3) by (rule list_index_member)
  then have st: "st = ''train'' \<or> st = ''validation'' \<or> st = ''test''"
    by (simp add: SET_TYPES_def)
  have am: "?am = (if total_cap < int (length rows) then Some total_cap else None)"
  proof (cases "st = ''train''")
    case True
    then show ?thesis using assms(5) by (simp add: choose_amount_def exceeds_def)
  next
    case False
    then show ?thesis using st assms(5) by (simp add: choose_amount_def exceeds_def)
  qed
  have cls: "class_id ` set (images ds) = class_id ` set imgs"
  proof -
    have "map (fst \<circ> snd \<circ> snd) (map image_row (images ds)) =
          map (fst \<circ> snd \<circ> snd) (map image_row imgs)" using eq by simp
    then have "map class_id (images ds) = map class_id imgs"
      by (simp add: comp_def image_row_def)
    then have "set (map class_id (images ds)) = set (map class_id imgs)" by simp
    then show ?thesis by simp
  qed
  have leq: "length (images ds) = length imgs"
    using eq by (rule map_eq_imp_length_eq)
  have pe: "map ?proj (images ds) = map ?proj imgs"
  proof -
    have "map ?proj (images ds) =
          map ((\<lambda>(h, p, c, s, pr). (h, p, Some c, s, pr)) \<circ> image_row) (images ds)"
      by (simp add: image_row_def comp_def)
    also have "\<dots> = map (\<lambda>(h, p, c, s, pr). (h, p, Some c, s, pr)) (map image_row imgs)"
      using eq by (simp only: map_map [symmetric])
    also have "\<dots> = map ?proj imgs" by (simp add: image_row_def comp_def)
    finally show ?thesis .
  qed
  have key: "\<And>q. random_value_loop rng (label_dict ds) ?n (Some 500) q ?d (as_sample []) 0
                   (seed rng 27) = Inr (smp, g') \<Longrightarrow>
             \<exists>ys. smp = as_sample ys \<and> map ?proj (images ds) = map ?F ys \<and>
                  int (card (fst ` set ys)) \<le> ?n \<and>
                  card (class_id ` set (images ds)) \<le> 500 \<and>
                  (\<forall>m. q = Some m \<longrightarrow> int (length (images ds)) \<le> ?n * max 1 m) \<and>
                  length (images ds) \<le> length rows"
  proof -
    fix q
    assume run: "random_value_loop rng (label_dict ds) ?n (Some 500) q ?d (as_sample []) 0
                   (seed rng 27) = Inr (smp, g')"
    have "0 < ?n" using n1 by simp
    from loop_bound[OF run this] len obtain ys where
      ys: "smp = as_sample ys"
          "int (card (set (map fst ys))) \<le> ?n"
          "\<forall>m. q = Some m \<longrightarrow> int (length ys) \<le> ?n * max 1 m"
          "length ys \<le> sum_list (map (\<lambda>(k, vs). length vs) ?d)"
      by auto
    have b: "build_images (label_dict ds) (as_sample ys) [0..<length ys] [] = Inr imgs"
      using bi unfolding ys(1) by (simp add: fst_as_sample)
    from images_of_sample[OF b]
    have im: "length imgs = length ys" "card (class_id ` set imgs) \<le> card (set (map fst ys))"
      by auto
    from build_images_from[OF b] have "map ?proj imgs = map ?F ys" by simp
    then have pi: "map ?proj (images ds) = map ?F ys" using pe by simp
    have "card (class_id ` set (images ds)) \<le> card (set (map fst ys))"
      using im(2) unfolding cls .
    then have c500: "card (class_id ` set (images ds)) \<le> 500"
      using ys(2) n500 by linarith
    have cn: "int (card (fst ` set ys)) \<le> ?n" using ys(2) by simp
    have qb: "\<forall>m. q = Some m \<longrightarrow> int (length (images ds)) \<le> ?n * max 1 m"
      using ys(3) im(1) leq by simp
    have lr: "length (images ds) \<le> length rows"
      using ys(4) im(1) leq grouped_sizes[of rows] by simp
    from ys(1) pi cn c500 qb lr
    show "\<exists>ys. smp = as_sample ys \<and> map ?proj (images ds) = map ?F ys \<and>
                  int (card (fst ` set ys)) \<le> ?n \<and>
                  card (class_id ` set (images ds)) \<le> 500 \<and>
                  (\<forall>m. q = Some m \<longrightarrow> int (length (images ds)) \<le> ?n * max 1 m) \<and>
                  length (images ds) \<le> length rows"
      by blast
  qed
  show ?thesis
  proof (cases "total_cap < int (length rows)")
    case False
    then have "?am = None" using am by simp
    then have "random_value_loop rng (label_dict ds) ?n (Some 500) None ?d (as_sample []) 0
                 (seed rng 27) = Inr (smp, g')"
      using rv by (simp add: random_value_def as_sample_Nil)
    from key[OF this] show ?thesis using n1 n500 False by auto
  next
    case True
    then have a: "?am = Some total_cap" using am by simp
    obtain x where x: "true_div total_cap ?n = Inr x"
      using rv unfolding a by (auto simp: random_value_def split: sum.splits)
    then have run: "random_value_loop rng (label_dict ds) ?n (Some 500) (Some (py_round x)) ?d
                      (as_sample []) 0 (seed rng 27) = Inr (smp, g')"
      using rv unfolding a by (simp add: random_value_def as_sample_Nil)
    have cap: "total_cap = 54000 \<or> total_cap = 6000" using assms(5) by simp
    from quota_bound[OF n1 n500 cap x]
    have qb: "1 \<le> py_round x" "?n * py_round x \<le> total_cap + 250" by auto
    from key[OF run] obtain ys where
      ys: "smp = as_sample ys" "map ?proj (images ds) = map ?F ys"
          "int (card (fst ` set ys)) \<le> ?n"
          "card (class_id ` set (images ds)) \<le> 500"
          "int (length (images ds)) \<le> ?n * max 1 (py_round x)"
      by blast
    have tot: "int (length (images ds)) \<le> ?n * py_round x" using ys(5) qb(1) by simp
    have dk: "map fst ?d = first_seen (map row_class rows)"
      using group_rows_keys[of rows] by (simp add: dict_keys_def)
    then have "distinct (map fst ?d)" by (simp add: first_seen_distinct)
    from loop_per_class[OF run this] obtain ys' where
      ys': "smp = as_sample ([] @ ys')" "set (map fst ys') \<subseteq> set (map fst ?d)"
           "\<forall>k. int (length (filter (\<lambda>y. fst y = k) ys')) \<le> max 1 (py_round x)"
      by blast
    have "as_sample ys' = as_sample ys" using ys(1) ys'(1) by simp
    then have same: "ys' = ys" by (rule as_sample_inj)
    from loop_draws_entries[OF perm run] obtain ys2 where
      ys2: "smp = as_sample ([] @ ys2)"
           "mset ys2 \<subseteq># mset (concat (map (\<lambda>(k, vs). map (Pair k) vs) ?d))"
      by blast
    have "as_sample ys2 = as_sample ys" using ys(1) ys2(1) by simp
    then have "ys2 = ys" by (rule as_sample_inj)
    then have drawn: "mset ys \<subseteq># mset (map (\<lambda>r. (row_class r, row_entry r)) rows)"
      using ys2(2) grouped_entries[of rows] by simp
    have per: "\<forall>k. int (length (filter (\<lambda>y. fst y = k) ys)) \<le> py_round x"
      using ys'(3) qb(1) unfolding same by simp
    have sub: "set (map fst ys) \<subseteq> set (first_seen (map row_class rows))"
      using ys'(2) unfolding same dk .
    have lab: "\<forall>c. int (length (filter (\<lambda>im. class_id im = c) (images ds))) \<le> py_round x"
      if "ld_arg = None \<or> ld_arg = Some []"
    proof
      fix c
      have "label_dict ds = build_label_dict ld_arg ?d"
        using sample_images_fields[OF s] by simp
      then have "inj_on (map_of (label_dict ds)) (set (first_seen (map row_class rows)))"
        using internal_label_dict_inj[OF that, of rows] by simp
      then have inj: "inj_on (map_of (label_dict ds)) (set (map fst ys))"
        using sub by (rule inj_on_subset)
      have "0 \<le> py_round x" using qb(1) by simp
      from per_label_bound[OF ys(2) inj per this]
      show "int (length (filter (\<lambda>im. class_id im = c) (images ds))) \<le> py_round x" .
    qed
    have "\<exists>x ys. true_div total_cap ?n = Inr x \<and>
             map ?proj (images ds) = map ?F ys \<and>
             mset ys \<subseteq># mset (map (\<lambda>r. (row_class r, row_entry r)) rows) \<and>
             int (card (fst ` set ys)) \<le> ?n \<and>
             (\<forall>k. int (length (filter (\<lambda>y. fst y = k) ys)) \<le> py_round x) \<and>
             (ld_arg = None \<or> ld_arg = Some [] \<longrightarrow>
                (\<forall>c. int (length (filter (\<lambda>im. class_id im = c) (images ds))) \<le> py_round x)) \<and>
             int (length (images ds)) \<le> ?n * py_round x \<and>
             ?n * py_round x \<le> total_cap + 250"
      using x ys(2,3) drawn per lab tot qb(2) by blast
    then show ?thesis using n1 n500 True ys(4) by simp
  qed
qed

section \<open>Runs in which every class is kept\<close>

lemma loop_all_kept:
  assumes lenp: "\<And>g xs. length (fst (shuffle rng g xs)) = length xs"
    and "set (map fst items) \<subseteq> set (take (nat ncls) (dict_keys ld))"
    and "ncls = ccs + int (length items)"
  shows "\<exists>ys g'. random_value_loop rng ld ncls cap q items (as_sample xs) ccs g =
                   Inr (as_sample (xs @ ys), g') \<and>
                 map fst ys =
                   concat (map (\<lambda>(k, vs). replicate
                     (case q of None \<Rightarrow> length vs | Some n \<Rightarrow> min (length vs) (nat (max 1 n))) k)
                     items)"
  using assms(2,3)
proof (induction items arbitrary: xs ccs g)
  case Nil
  have "random_value_loop rng ld ncls cap q [] (as_sample xs) ccs g = Inr (as_sample (xs @ []), g)"
    by simp
  then show ?case by (intro exI[of _ "[]"] exI[of _ g]) simp
next
  case (Cons item rest)
  obtain key vals where item: "item = (key, vals)" by (cases item) auto
  have kept: "key \<in> set (take (nat ncls) (dict_keys ld))"
    using Cons.prems(1) unfolding item by simp
  have rest_kept: "set (map fst rest) \<subseteq> set (take (nat ncls) (dict_keys ld))"
    using Cons.prems(1) by simp
  obtain vals' g1 where sh: "shuffle rng g vals = (vals', g1)"
    by (cases "shuffle rng g vals") auto
  have "length (fst (shuffle rng g vals)) = length vals" by (rule lenp)
  then have lv: "length vals' = length vals" using sh by simp
  define cnt where
    "cnt = (case q of None \<Rightarrow> length vals | Some n \<Rightarrow> min (length vals) (nat (max 1 n)))"
  from take_values_any[of q key vals' xs] obtain vs' where
    tv: "take_values q key 0 vals' (as_sample xs) = as_sample (xs @ map (Pair key) vs')"
        "length vs' = (case q of None \<Rightarrow> length vals' | Some n \<Rightarrow> min (length vals') (nat (max 1 n)))"
    by blast
  define ys1 where "ys1 = map (Pair key) vs'"
  have tv1: "take_values q key 0 vals' (as_sample xs) = as_sample (xs @ ys1)"
    using tv(1) unfolding ys1_def .
  have "length vs' = cnt" using tv(2) lv unfolding cnt_def by (cases q) simp_all
  then have f1: "map fst ys1 = replicate cnt key"
    unfolding ys1_def by (simp add: comp_def map_replicate_const)
  have step: "random_value_loop rng ld ncls cap q (item # rest) (as_sample xs) ccs g =
              (if ncls \<le> ccs + 1 then Inr (as_sample (xs @ ys1), g1)
               else random_value_loop rng ld ncls cap q rest (as_sample (xs @ ys1)) (ccs + 1) g1)"
    unfolding item using kept sh tv1 by (simp add: Let_def)
  have cc: "concat (map (\<lambda>(k, vs). replicate
                     (case q of None \<Rightarrow> length vs | Some n \<Rightarrow> min (length vs) (nat (max 1 n))) k)
                     (item # rest)) =
            replicate cnt key @
            concat (map (\<lambda>(k, vs). replicate
                     (case q of None \<Rightarrow> length vs | Some n \<Rightarrow> min (length vs) (nat (max 1 n))) k)
                     rest)"
    unfolding item cnt_def by simp
  show ?case
  proof (cases "ncls \<le> ccs + 1")
    case True
    then have r: "rest = []" using Cons.prems(2) by simp
    have "random_value_loop rng ld ncls cap q (item # rest) (as_sample xs) ccs g =
            Inr (as_sample (xs @ ys1), g1)"
      unfolding step using True by simp
    moreover have "map fst ys1 =
            concat (map (\<lambda>(k, vs). replicate
                     (case q of None \<Rightarrow> length vs | Some n \<Rightarrow> min (length vs) (nat (max 1 n))) k)
                     (item # rest))"
      unfolding cc using f1 r by simp
    ultimately show ?thesis by blast
  next
    case False
    have n': "ncls = ccs + 1 + int (length rest)" using Cons.prems(2) by simp
    from Cons.IH[OF rest_kept n', of "xs @ ys1" g1] obtain ys2 g' where
      ih: "random_value_loop rng ld ncls cap q rest (as_sample (xs @ ys1)) (ccs + 1) g1 =
             Inr (as_sample ((xs @ ys1) @ ys2), g')"
          "map fst ys2 =
             concat (map (\<lambda>(k, vs). replicate
                     (case q of None \<Rightarrow> length vs | Some n \<Rightarrow> min (length vs) (nat (max 1 n))) k)
                     rest)"
      by blast
    have "random_value_loop rng ld ncls cap q (item # rest) (as_sample xs) ccs g =
            Inr (as_sample (xs @ (ys1 @ ys2)), g')"
      unfolding step using False ih(1) by simp
    moreover have "map fst (ys1 @ ys2) =
            concat (map (\<lambda>(k, vs). replicate
                     (case q of None \<Rightarrow> length vs | Some n \<Rightarrow> min (length vs) (nat (max 1 n))) k)
                     (item # rest))"
      unfolding cc using f1 ih(2) by simp
    ultimately show ?thesis by blast
  qed
qed

lemma replicated_keys_subset:
  "set (concat (map (\<lambda>(k, vs). replicate (f vs) k) d)) \<subseteq> set (map fst d)"
  by (induction d) (auto split: if_splits)

lemma build_images_total:
  assumes "set (map fst ys) \<subseteq> set (dict_keys ld)"
  shows "\<exists>imgs. build_images ld (as_sample ys) [m..<length ys] acc = Inr imgs"
  using assms
proof (induction "length ys - m" arbitrary: m acc)
  case 0
  then show ?case by simp
next
  case (Suc d)
  then have m: "m < length ys" by simp
  obtain k h p s pr where y: "ys ! m = (k, h, p, s, pr)" by (cases "ys ! m") auto
  have upt: "[m..<length ys] = m # [Suc m..<length ys]" using m by (simp add: upt_conv_Cons)
  have "k \<in> set (map fst ys)" using m y by (metis fst_conv in_set_conv_nth length_map nth_map)
  then have "k \<in> fst ` set ld" using Suc.prems by (auto simp: dict_keys_def)
  then obtain l where l: "map_of ld k = Some l"
    by (metis map_of_eq_None_iff not_Some_eq)
  let ?im = "\<lparr> relative_path = p, class_id = l, set_id = s, problem = pr,
               file_hash = h, feature_vector = [] \<rparr>"
  have step: "build_images ld (as_sample ys) [m..<length ys] acc =
              build_images ld (as_sample ys) [Suc m..<length ys] (acc @ [?im])"
    using m y l unfolding upt by (simp add: as_sample_def py_index_def)
  have d: "d = length ys - Suc m" using Suc.hyps(2) by simp
  from Suc.hyps(1)[OF d Suc.prems, of "acc @ [?im]"] show ?case unfolding step .
qed

lemma internal_label_dict_keys:
  assumes "ld_arg = None \<or> ld_arg = Some []"
  shows "set (dict_keys (build_label_dict ld_arg (group_rows rows []))) =
           set (first_seen (map row_class rows)) \<and>
         length (dict_keys (build_label_dict ld_arg (group_rows rows []))) =
           length (first_seen (map row_class rows))"
proof -
  let ?ks = "first_seen (map row_class rows)"
  show ?thesis
  proof (cases "set ?ks = int ` {0..<length ?ks}")
    case True
    then have "build_label_dict ld_arg (group_rows rows []) = map (\<lambda>j. (int j, int j)) [0..<length ?ks]"
      using build_label_dict_internal[OF assms, of rows] by (simp add: Let_def)
    then show ?thesis using True by (simp add: dict_keys_def comp_def)
  next
    case False
    then have "build_label_dict ld_arg (group_rows rows []) = zip ?ks (map int [0..<length ?ks])"
      using build_label_dict_internal[OF assms, of rows] by (simp add: Let_def)
    then show ?thesis by (simp add: dict_keys_def)
  qed
qed

text \<open>
  The sampling stage in bounded mode, without a label dictionary argument, on rows of
  at most 500 classes that exceed the cap \<open>c\<close>: it returns, and the number of images is
  the sum over the classes of the smaller of the class size and the quota.
\<close>

lemma sample_images_count:
  fixes ks :: "int list"
  assumes lenp: "\<And>g xs. length (fst (shuffle rng g xs)) = length xs"
    and "ld_arg = None \<or> ld_arg = Some []"
    and "ks = first_seen (map row_class rows)"
    and "1 \<le> length ks" "length ks \<le> 500"
    and "choose_amount st (length rows) (Some 54000) (Some 6000) = Some c"
    and "true_div c (int (length ks)) = Inr x"
  shows "\<exists>(imgs :: 'a CollectionImage list) ld g2.
           sample_images rng g ld_arg False st rows = Inr (imgs, ld, int (length ks), g2) \<and>
           length imgs =
             sum_list (map (\<lambda>k. min (length (filter (\<lambda>r. row_class r = k) rows))
                                    (nat (max 1 (py_round x)))) ks)"
proof -
  let ?d = "group_rows rows []"
  let ?ld = "build_label_dict ld_arg ?d"
  let ?q = "Some (py_round x)"
  have dk: "dict_keys ?d = ks" using assms(3) by (simp add: group_rows_keys)
  have ln: "length ?d = length ks" using dk by (simp add: dict_keys_def flip: dk)
  have ncls: "compute_num_classes (length (dict_keys ?d)) (Some 500) = int (length ks)"
    using assms(5) unfolding dk by (simp add: compute_num_classes_def)
  from internal_label_dict_keys[OF assms(2), of rows] assms(3)
  have lk: "set (dict_keys ?ld) = set ks" "length (dict_keys ?ld) = length ks" by auto
  have kept: "set (map fst ?d) \<subseteq> set (take (nat (int (length ks))) (dict_keys ?ld))"
    using lk dk by (simp add: dict_keys_def)
  have n0: "int (length ks) = 0 + int (length ?d)" using ln by simp
  from loop_all_kept[OF lenp kept n0, of "Some 500" ?q "[]" g] obtain ys g2 where
    run: "random_value_loop rng ?ld (int (length ks)) (Some 500) ?q ?d (as_sample []) 0 g =
            Inr (as_sample ys, g2)"
    and labs: "map fst ys =
                 concat (map (\<lambda>(k, vs). replicate (min (length vs) (nat (max 1 (py_round x)))) k) ?d)"
    by auto
  have rv: "random_value rng ?ld (int (length ks)) (Some 500) ?d (Some c) g = Inr (as_sample ys, g2)"
    using run assms(7) by (simp add: random_value_def as_sample_Nil)
  have sk: "map fst ?d = ks" using dk by (simp add: dict_keys_def)
  have "set (map fst ys) \<subseteq> set (map fst ?d)"
    unfolding labs by (rule replicated_keys_subset)
  then have "set (map fst ys) \<subseteq> set ks" unfolding sk .
  then have "set (map fst ys) \<subseteq> set (dict_keys ?ld)" unfolding lk(1) .
  from build_images_total[OF this, of 0 "[]"] obtain imgs :: "'a CollectionImage list" where
    bi: "build_images ?ld (as_sample ys) [0..<length ys] [] = Inr imgs"
    by blast
  have li: "length imgs = length ys" using images_of_sample[OF bi] by simp
  have "length ys = length (map fst ys)" by simp
  also have "\<dots> = sum_list (map (\<lambda>(k, vs). min (length vs) (nat (max 1 (py_round x)))) ?d)"
    unfolding labs by (simp add: length_concat comp_def case_prod_unfold)
  also have "\<dots> = sum_list (map (\<lambda>k. min (length (filter (\<lambda>r. row_class r = k) rows))
                                       (nat (max 1 (py_round x)))) ks)"
    unfolding assms(3) by (simp add: group_rows_closed comp_def)
  finally have cnt: "length ys = sum_list (map (\<lambda>k. min (length (filter (\<lambda>r. row_class r = k) rows))
                                       (nat (max 1 (py_round x)))) ks)" .
  have "sample_images rng g ld_arg False st rows = Inr (imgs, ?ld, int (length ks), g2)"
    using rv bi assms(6) ncls by (simp add: sample_images_def Let_def fst_as_sample)
  then show ?thesis using li cnt by auto
qed

lemma verify_original_loop_present:
  assumes "\<And>p. isfile env p" "\<forall>i \<in> set idx. i < length (images ds)"
  shows "verify_original_loop env ds idx had out = Inr (had, out)"
  using assms(2)
proof (induction idx)
  case Nil
  then show ?case by simp
next
  case (Cons i idx)
  then have "i < length (images ds)" by simp
  then obtain p where "original_image_path_for_index ds (int i) = Inr p"
    by (simp add: original_image_path_for_index_def py_index_def)
  then show ?case using Cons assms(1) by simp
qed

text \<open>
  In a world where every directory and file exists, a construction in \<open>original\<close> mode
  completes whenever the split is valid, the query returns rows and the sampling stage
  returns.
\<close>

lemma init_original_completes:
  fixes imgs :: "'a CollectionImage list" and env :: "('a, 'img) environment"
    and pl :: "('img \<Rightarrow> 't) option"
  assumes "\<And>p. isdir env p" "\<And>p. isfile env p"
    and "list_index SET_TYPES st = Inr i"
    and "sqlite3_fetchall env (images_query name (Some i)) = Inr rows"
    and "rows \<noteq> []"
    and "sample_images rng (seed rng 27) ld_arg fd st rows = Inr (imgs, ld, n, g2)"
  shows "\<exists>ds out. init rng g0 env name st ''original'' vt pl ld_arg False fd =
                    Inr (Constructed ds, g2, out) \<and>
                  images ds = imgs \<and> label_dict ds = ld \<and> num_classes ds = n \<and>
                  initialized_correctly ds"
proof -
  have st: "st \<in> set SET_TYPES" using assms(3) by (rule list_index_member)
  have root: "sanitize_and_check_root_path env IMAGES_ROOT_PATH =
                Inr (replace_double_slash (IMAGES_ROOT_PATH @ ''/''))"
    using assms(1) by (simp add: sanitize_and_check_root_path_def Let_def)
  have q: "execute_database_query env (images_query name (Some i)) = Inr rows"
    using assms(2,4) by (simp add: execute_database_query_def)
  have ver: "\<And>ds0 :: ('a, 'img, 't) CollectionDataset. input_type ds0 = ''original'' \<Longrightarrow>
               run_verification env False ds0 =
                 Inr (ds0\<lparr>initialized_correctly := True\<rparr>, [VerifyingOriginalImages, Done])"
  proof -
    fix ds0 :: "('a, 'img, 't) CollectionDataset"
    assume o: "input_type ds0 = ''original''"
    have "verify_original_loop env ds0 [0..<length (images ds0)] False [VerifyingOriginalImages] =
            Inr (False, [VerifyingOriginalImages])"
      by (rule verify_original_loop_present[OF assms(2)]) simp
    then show "run_verification env False ds0 =
                 Inr (ds0\<lparr>initialized_correctly := True\<rparr>, [VerifyingOriginalImages, Done])"
      using o by (simp add: run_verification_def verify_original_images_exist_def)
  qed
  show ?thesis
    using st root q assms(3,5,6)
    by (simp add: init_def Let_def INPUT_TYPES_def ver)
qed

section \<open>Nine classes of 667 validation rows\<close>

lemma filter_replicate_if: "filter P (replicate n x) = (if P x then replicate n x else [])"
  by (induction n) auto

lemma first_seen_append:
  "first_seen (xs @ ys) = first_seen xs @ filter (\<lambda>y. y \<notin> set xs) (first_seen ys)"
proof (induction ys rule: rev_induct)
  case Nil
  then show ?case by (simp add: first_seen_Nil)
next
  case (snoc y ys)
  have "first_seen (xs @ ys @ [y]) = first_seen ((xs @ ys) @ [y])" by simp
  also have "\<dots> = (if y \<in> set (xs @ ys) then first_seen (xs @ ys) else first_seen (xs @ ys) @ [y])"
    by (rule first_seen_snoc)
  finally show ?case using snoc by (auto simp: first_seen_snoc)
qed

lemma first_seen_replicate: "first_seen (replicate (Suc n) x) = [x]"
proof (induction n)
  case 0
  show ?case using first_seen_snoc[of "[]" x] by (simp add: first_seen_Nil)
next
  case (Suc n)
  have e: "replicate (Suc (Suc n)) x = replicate (Suc n) x @ [x]"
    by (simp add: replicate_append_same)
  have m: "x \<in> set (replicate (Suc n) x)"
    by simp
  have "first_seen (replicate (Suc n) x @ [x]) = first_seen (replicate (Suc n) x)"
    using m by (simp only: first_seen_snoc if_True)
  then show ?case
    by (simp only: e Suc)
qed

lemma first_seen_replicate_pos: "0 < n \<Longrightarrow> first_seen (replicate n x) = [x]"
  using first_seen_replicate[of "n - 1" x] by simp

lemma nine_rows:
  "requested_rows ''task'' (Some 1) nine_classes_table =
     concat (map (\<lambda>c. replicate 667 (''h'', ''h.png'', c, 1, 0)) [0, 1, 2, 3, 4, 5, 6, 7, 8])"
  by (simp add: requested_rows_def nine_classes_table_def example_row_def filter_replicate_if)

lemma nine_rows_length: "length (requested_rows ''task'' (Some 1) nine_classes_table) = 6003"
  unfolding nine_rows by simp

lemma nine_rows_classes:
  "first_seen (map row_class (requested_rows ''task'' (Some 1) nine_classes_table)) =
     [0, 1, 2, 3, 4, 5, 6, 7, 8]"
  unfolding nine_rows
  by (simp add: first_seen_append first_seen_replicate_pos first_seen_Nil row_class_def)

lemma nine_rows_sizes:
  "map (\<lambda>k. length (filter (\<lambda>r. row_class r = k)
                      (requested_rows ''task'' (Some 1) nine_classes_table)))
     [0, 1, 2, 3, 4, 5, 6, 7, 8] =
   [667, 667, 667, 667, 667, 667, 667, 667, 667]"
  unfolding nine_rows by (simp add: filter_replicate_if row_class_def)

lemma example_rng_length: "length (fst (shuffle example_rng g xs)) = length xs"
  by (simp add: example_rng_def)

lemma example_rng_permutes: "mset (fst (shuffle example_rng g xs)) = mset xs"
  by (simp add: example_rng_def)

lemma nine_rows_returned:
  "sqlite3_fetchall (example_env nine_classes_table) (images_query ''task'' (Some 1)) =
     Inr (requested_rows ''task'' (Some 1) nine_classes_table)"
  using example_env_rows[of "Some 1" nine_classes_table] by simp

text \<open>
  The construction on these rows, bounded, for the validation split: it completes with
  nine classes and 6003 images.
\<close>

lemma nine_classes_construction:
  "\<exists>(ds :: (int, unit, unit) CollectionDataset) g out.
     init example_rng 0 (example_env nine_classes_table) ''task'' ''validation'' ''original''
       None None None False False = Inr (Constructed ds, g, out) \<and>
     num_classes ds = 9 \<and> length (images ds) = 6003"
proof -
  let ?rows = "requested_rows ''task'' (Some 1) nine_classes_table"
  let ?ks = "[0, 1, 2, 3, 4, 5, 6, 7, 8 :: int]"
  have ks: "?ks = first_seen (map row_class ?rows)" by (simp only: nine_rows_classes)
  have am: "choose_amount ''validation'' (length ?rows) (Some 54000) (Some 6000) = Some 6000"
    unfolding nine_rows_length by (simp add: choose_amount_def exceeds_def)
  have "\<exists>x. true_div 6000 9 = Inr x \<and> \<bar>x - of_int 6000 / of_int 9\<bar> \<le> 1 / 2 ^ 37"
    by (rule true_div_quota) simp_all
  then obtain x where x: "true_div 6000 9 = Inr x" by blast
  have q: "py_round x = 667" using x by (rule quota_6000_by_9)
  have x': "true_div 6000 (int (length ?ks)) = Inr x" using x by simp
  have "\<exists>(imgs :: int CollectionImage list) ld g2.
           sample_images example_rng (seed example_rng 27) None False ''validation'' ?rows =
             Inr (imgs, ld, int (length ?ks), g2) \<and>
           length imgs =
             sum_list (map (\<lambda>k. min (length (filter (\<lambda>r. row_class r = k) ?rows))
                                    (nat (max 1 (py_round x)))) ?ks)"
    by (rule sample_images_count[OF example_rng_length _ ks _ _ am x']) simp_all
  then obtain imgs :: "int CollectionImage list" and ld g2 where
    s: "sample_images example_rng (seed example_rng 27) None False ''validation'' ?rows =
          Inr (imgs, ld, int (length ?ks), g2)"
    and cnt: "length imgs =
             sum_list (map (\<lambda>k. min (length (filter (\<lambda>r. row_class r = k) ?rows))
                                    (nat (max 1 (py_round x)))) ?ks)"
    by blast
  have "map (\<lambda>k. min (length (filter (\<lambda>r. row_class r = k) ?rows)) (nat (max 1 (py_round x)))) ?ks =
        map (\<lambda>n. min n 667) (map (\<lambda>k. length (filter (\<lambda>r. row_class r = k) ?rows)) ?ks)"
    unfolding q by simp
  also have "\<dots> = [667, 667, 667, 667, 667, 667, 667, 667, 667]"
    unfolding nine_rows_sizes by simp
  finally have "length imgs = 6003" using cnt by simp
  moreover have ne: "?rows \<noteq> []"
    using nine_rows_length by auto
  moreover note init_original_completes[OF example_env_simps(1) example_env_simps(2)
      list_index_SET_TYPES(2) nine_rows_returned ne s, of 0 None "None :: (unit \<Rightarrow> unit) option"]
  ultimately show ?thesis by auto
qed

text \<open>
  The claim's bound of 6000 items for the validation split fails on this catalog: the
  quota is \<open>round(6000 / 9) = 667\<close>, and nine classes of 667 rows give 6003 items.
\<close>

theorem bounded_sampling_counterexample:
  "(case init example_rng 0 (example_env nine_classes_table) ''task'' ''validation'' ''original''
           None (None :: (unit \<Rightarrow> unit) option) None False False of
      Inl e \<Rightarrow> 0
    | Inr (NoRows, g, out) \<Rightarrow> 0
    | Inr (Constructed ds, g, out) \<Rightarrow> int (length (images ds))) = 6003"
proof -
  obtain ds :: "(int, unit, unit) CollectionDataset" and g out where
    "init example_rng 0 (example_env nine_classes_table) ''task'' ''validation'' ''original''
       None None None False False = Inr (Constructed ds, g, out)"
    "length (images ds) = 6003"
    using nine_classes_construction by blast
  then show ?thesis by simp
qed

theorem bounded_sampling_limits_witness:
  "(\<exists>(ds :: (int, unit, unit) CollectionDataset) g out x.
      init example_rng 0 (example_env nine_classes_table) ''task'' ''validation'' ''original''
        None None None False False = Inr (Constructed ds, g, out) \<and>
      num_classes ds = 9 \<and> card (class_id ` set (images ds)) \<le> 500 \<and>
      true_div 6000 9 = Inr x \<and> py_round x = 667 \<and>
      (\<forall>c. int (length (filter (\<lambda>im. class_id im = c) (images ds))) \<le> py_round x) \<and>
      int (length (images ds)) \<le> 9 * py_round x \<and> 9 * py_round x \<le> 6000 + 250) \<and>
   (\<exists>(ds :: (int, unit, unit) CollectionDataset) g out.
      init example_rng 0
        (example_env [example_row ''a'' 7 0, example_row ''b'' 3 0, example_row ''c'' 7 0])
        ''task'' ''train'' ''original'' None None None False False =
      Inr (Constructed ds, g, out) \<and>
      num_classes ds \<le> 500 \<and> length (images ds) \<le> 3)"
proof -
  obtain ds :: "(int, unit, unit) CollectionDataset" and g out where
    r: "init example_rng 0 (example_env nine_classes_table) ''task'' ''validation'' ''original''
          None None None False False = Inr (Constructed ds, g, out)"
    and n: "num_classes ds = 9" and l: "length (images ds) = 6003"
    using nine_classes_construction by blast
  let ?rows = "requested_rows ''task'' (Some 1) nine_classes_table"
  have q: "sqlite3_fetchall (example_env nine_classes_table)
             (images_query ''task'' (if \<not> False then Some 1 else None)) = Inr ?rows"
    using nine_rows_returned by simp
  have big: "(if ''validation'' = ''train'' then 54000 else 6000) < int (length ?rows)"
    using nine_rows_length by simp
  from bounded_sampling_limits [OF example_rng_permutes r list_index_SET_TYPES(2) q refl] big n
  obtain x where
    x: "true_div 6000 9 = Inr x"
       "\<forall>c. int (length (filter (\<lambda>im. class_id im = c) (images ds))) \<le> py_round x"
       "int (length (images ds)) \<le> 9 * py_round x" "9 * py_round x \<le> 6000 + 250"
       "card (class_id ` set (images ds)) \<le> 500"
    by auto
  have "py_round x = 667" using x(1) by (rule quota_6000_by_9)
  with r n x have first:
    "\<exists>(ds :: (int, unit, unit) CollectionDataset) g out x.
      init example_rng 0 (example_env nine_classes_table) ''task'' ''validation'' ''original''
        None None None False False = Inr (Constructed ds, g, out) \<and>
      num_classes ds = 9 \<and> card (class_id ` set (images ds)) \<le> 500 \<and>
      true_div 6000 9 = Inr x \<and> py_round x = 667 \<and>
      (\<forall>c. int (length (filter (\<lambda>im. class_id im = c) (images ds))) \<le> py_round x) \<and>
      int (length (images ds)) \<le> 9 * py_round x \<and> 9 * py_round x \<le> 6000 + 250"
    by blast
  let ?t = "[example_row ''a'' 7 0, example_row ''b'' 3 0, example_row ''c'' 7 0]"
  obtain ds2 :: "(int, unit, unit) CollectionDataset" and g2 out2 where
    r2: "init example_rng 0 (example_env ?t) ''task'' ''train'' ''original'' None None None
           False False = Inr (Constructed ds2, g2, out2)"
    using example_init_sparse by blast
  have q2: "sqlite3_fetchall (example_env ?t)
              (images_query ''task'' (if \<not> False then Some 0 else None)) =
            Inr (requested_rows ''task'' (Some 0) ?t)"
    using example_env_rows[of "Some 0" ?t] by simp
  have l2: "length (requested_rows ''task'' (Some 0) ?t) = 3"
    by (simp add: requested_rows_def example_row_def)
  from bounded_sampling_limits [OF example_rng_permutes r2 list_index_SET_TYPES(1) q2 refl]
  have "num_classes ds2 \<le> 500 \<and> length (images ds2) \<le> 3"
    unfolding l2 by simp
  with r2 have second:
    "\<exists>(ds :: (int, unit, unit) CollectionDataset) g out.
      init example_rng 0 (example_env ?t) ''task'' ''train'' ''original'' None None None
        False False = Inr (Constructed ds, g, out) \<and>
      num_classes ds \<le> 500 \<and> length (images ds) \<le> 3"
    by blast
  from first second show ?thesis by (rule conjI)
qed

end
